theory Spec2Isabelle
  imports Main "HOL-Library.Word" "HOL-Library.List_Lexorder" "HOL-Library.Finite_Map"
begin

section \<open>Data model of \<open>wiktionary/collection/collect.py\<close>\<close>

text \<open>
  A Python \<open>str\<close> is a sequence of Unicode code points; \<open>len\<close> counts code points and
  \<open>sorted\<close> orders strings lexicographically by code point. A code point is a natural
  number, so that a string of any script is a value of the model.
\<close>

type_synonym codepoint = nat
type_synonym str = "codepoint list"

definition lit :: "string \<Rightarrow> str" where
  \<comment> \<open>an ASCII literal of the source as a sequence of code points\<close>
  "lit s = map of_char s"

text \<open>
  The value \<open>json.loads\<close> returns for one line of the dump (\<open>data: Any\<close>): \<open>None\<close>, a
  \<open>bool\<close>, an \<open>int\<close>, a \<open>float\<close> (its 64 bits; the program never computes with one), a
  \<open>str\<close>, a \<open>list\<close> or a \<open>dict\<close> with string keys. A \<open>dict\<close> is a finite map: its keys are
  unique and two of them are equal when they hold the same items; \<open>key in node\<close> is
  \<open>fmlookup d key \<noteq> None\<close> and \<open>node[key]\<close> is the value found.
\<close>

datatype json =
    JNull
  | JBool bool
  | JInt int
  | JFloat "64 word"
  | JStr str
  | JList "json list"
  | JDict "(str, json) fmap"

text \<open>
  \<open>Bindings = dict[str, int]\<close>, again a finite map: \<open>key in bindings\<close> is
  \<open>key |\<in>| fmdom bindings\<close>, \<open>{**bindings, key: index}\<close> is \<open>fmupd key index bindings\<close>,
  \<open>{**bindings, **position_bindings}\<close> is \<open>bindings ++\<^sub>f position_bindings\<close>, and
  \<open>set(bindings.keys())\<close> is \<open>fmdom bindings\<close>. The program never reads the order of a \<open>dict\<close>.
\<close>

type_synonym Bindings = "(str, int) fmap"
type_synonym SearchResults = "(str \<times> Bindings) list"
type_synonym ConsolidatedResult = "str list"
type_synonym ConsolidatedResults = "ConsolidatedResult list"
type_synonym Entry = "str \<times> str \<times> str"
type_synonym SearchPattern = str
type_synonym SearchPatterns = "SearchPattern \<times> SearchPattern \<times> SearchPattern \<times> (SearchPattern \<times> str) list"

text \<open>
  The exceptions the modelled functions can raise: the \<open>assert\<close> of \<open>search_recursively\<close>,
  a missing key in \<open>bindings[variable]\<close>, an index beyond \<open>indices\<close>, and a failed
  unpacking. A call of \<open>warn\<close> is recorded with the node it reports; the log holds the calls
  in the order they are made (what the warning filter then prints is not modelled). The
  model is of a run with assertions enabled (no \<open>-O\<close>) in which a warning does not raise.
\<close>

datatype error = AssertionError | KeyError str | IndexError | ValueError

datatype warning = NotAString json

fun isinstance_str :: "json \<Rightarrow> bool" where
  "isinstance_str (JStr s) = True"
| "isinstance_str _ = False"

type_synonym 'a outcome = "(error + 'a) \<times> warning list"

text \<open>
  The tables of the Unicode database the program reads through \<open>str.isupper\<close>,
  \<open>unicodedata.combining\<close>, \<open>unicodedata.normalize('NFD', _)\<close> and the whitespace class of
  \<open>\s\<close> and \<open>str.strip\<close>. They belong to the Python runtime, not to the repository, so the
  functions take them as a parameter and every theorem holds for whatever they contain.
\<close>

record unicodedata =
  isupper :: "codepoint \<Rightarrow> bool"  \<comment> \<open>\<open>chr(c).isupper()\<close>\<close>
  combining :: "codepoint \<Rightarrow> nat"  \<comment> \<open>\<open>unicodedata.combining(chr(c))\<close>\<close>
  nfd :: "str \<Rightarrow> str"  \<comment> \<open>\<open>unicodedata.normalize('NFD', text)\<close>\<close>
  isspace :: "codepoint \<Rightarrow> bool"  \<comment> \<open>the class \<open>\s\<close> of \<open>re\<close>, which \<open>str.strip()\<close> removes\<close>

definition ascii_tables :: unicodedata where
  \<comment> \<open>the tables on code points below 128, where no character combines or decomposes\<close>
  "ascii_tables =
     \<lparr> isupper = (\<lambda>c. 65 \<le> c \<and> c \<le> 90),
       combining = (\<lambda>c. 0),
       nfd = (\<lambda>text. text),
       isspace = (\<lambda>c. (9 \<le> c \<and> c \<le> 13) \<or> (28 \<le> c \<and> c \<le> 32)) \<rparr>"

section \<open>Pattern evaluation: \<open>search_values\<close>\<close>

definition SEARCH_PATTERN_DELIMITER :: codepoint where
  "SEARCH_PATTERN_DELIMITER = 47"

fun str_split :: "codepoint \<Rightarrow> str \<Rightarrow> str list" where
  \<comment> \<open>\<open>text.split(sep)\<close> for a one-character separator: never empty, \<open>''.split('/') = ['']\<close>\<close>
  "str_split sep [] = [[]]"
| "str_split sep (c # cs) =
     (if c = sep then [] # str_split sep cs
      else (case str_split sep cs of
              [] \<Rightarrow> [[c]]
            | w # ws \<Rightarrow> (c # w) # ws))"

definition is_variable_name :: "unicodedata \<Rightarrow> str \<Rightarrow> bool" where
  \<comment> \<open>\<open>len(text) == 1 and text.isupper()\<close>\<close>
  "is_variable_name U text = (case text of [c] \<Rightarrow> isupper U c | _ \<Rightarrow> False)"

definition enumerate_py :: "'a list \<Rightarrow> (int \<times> 'a) list" where
  \<comment> \<open>\<open>enumerate(node)\<close>, the indices as Python integers\<close>
  "enumerate_py xs = map (\<lambda>(i, x). (int i, x)) (List.enumerate 0 xs)"

fun collect :: "('x \<Rightarrow> 'a list outcome) \<Rightarrow> 'x list \<Rightarrow> 'a list outcome" where
  \<comment> \<open>\<open>[result for x in xs for result in f(x)]\<close>: the calls run in order, the first exception
      ends the comprehension, and the warnings issued until then stay issued\<close>
  "collect f [] = (Inr [], [])"
| "collect f (x # xs) =
     (case f x of
        (Inl e, w) \<Rightarrow> (Inl e, w)
      | (Inr rs, w) \<Rightarrow>
          (case collect f xs of
             (Inl e, w') \<Rightarrow> (Inl e, w @ w')
           | (Inr rs', w') \<Rightarrow> (Inr (rs @ rs'), w @ w')))"

fun search_recursively ::
  "unicodedata \<Rightarrow> bool \<Rightarrow> str list \<Rightarrow> json \<Rightarrow> Bindings \<Rightarrow> SearchResults outcome" where
  "search_recursively U silently_ignore_none [] node bindings =
     (case node of
        JStr s \<Rightarrow> (Inr [(s, bindings)], [])
      | _ \<Rightarrow> (Inr [], if \<not> (silently_ignore_none \<and> node = JNull) then [NotAString node] else []))"
| "search_recursively U silently_ignore_none (key # path_tail) node bindings =
     (if is_variable_name U key then
        (if key |\<in>| fmdom bindings then (Inl AssertionError, [])
         else (case node of
                 JList items \<Rightarrow>
                   collect (\<lambda>(index, item).
                              search_recursively U silently_ignore_none path_tail item
                                (fmupd key index bindings))
                           (enumerate_py items)
               | _ \<Rightarrow> (Inr [], [])))
      else (case node of
              JDict d \<Rightarrow>
                (case fmlookup d key of
                   Some child \<Rightarrow> search_recursively U silently_ignore_none path_tail child bindings
                 | None \<Rightarrow> (Inr [], []))
            | _ \<Rightarrow> (Inr [], [])))"

definition search_values :: "unicodedata \<Rightarrow> bool \<Rightarrow> SearchPattern \<Rightarrow> json \<Rightarrow> SearchResults outcome" where
  "search_values U silently_ignore_none pattern data =
     search_recursively U silently_ignore_none (str_split SEARCH_PATTERN_DELIMITER pattern) data fmempty"

definition has_repeated_variable :: "unicodedata \<Rightarrow> SearchPattern \<Rightarrow> bool" where
  \<comment> \<open>the same variable name occurs in two segments of the pattern\<close>
  "has_repeated_variable U pattern =
     (\<not> distinct (filter (is_variable_name U) (str_split SEARCH_PATTERN_DELIMITER pattern)))"

section \<open>The join: \<open>consolidate_results\<close>\<close>

text \<open>
  \<open>index_t = defaultdict[ordered_values_t, SearchResults]\<close> with \<open>defaultdict(list)\<close>: reading
  a key that was never written gives the empty list, so an index is a total function.
\<close>

type_synonym index_t = "int list \<Rightarrow> SearchResults"

fun extract_values :: "Bindings \<Rightarrow> str list \<Rightarrow> error + int list" where
  \<comment> \<open>\<open>tuple(bindings[variable] for variable in variables)\<close>\<close>
  "extract_values bindings [] = Inr []"
| "extract_values bindings (variable # variables) =
     (case fmlookup bindings variable of
        None \<Rightarrow> Inl (KeyError variable)
      | Some v \<Rightarrow>
          (case extract_values bindings variables of
             Inl e \<Rightarrow> Inl e
           | Inr vs \<Rightarrow> Inr (v # vs)))"

fun index_results :: "str list \<Rightarrow> SearchResults \<Rightarrow> index_t \<Rightarrow> error + index_t" where
  \<comment> \<open>the loop \<open>for result in position_results\<close> filling one index\<close>
  "index_results intersecting_variables [] index = Inr index"
| "index_results intersecting_variables (result # position_results) index =
     (case extract_values (snd result) intersecting_variables of
        Inl e \<Rightarrow> Inl e
      | Inr vs \<Rightarrow>
          index_results intersecting_variables position_results (index(vs := index vs @ [result])))"

fun index_positions ::
  "SearchResults list \<Rightarrow> index_t list \<Rightarrow> str list list \<Rightarrow> str fset \<Rightarrow>
   error + (index_t list \<times> str list list)" where
  \<comment> \<open>the loop over \<open>zip(results, ...)\<close> with its state \<open>indices\<close>, \<open>intersections\<close>,
      \<open>cumulative\<close>; \<open>(_, bindings), *_\<close> unpacks the first result of a position\<close>
  "index_positions [] indices intersections cumulative = Inr (indices, intersections)"
| "index_positions (position_results # results) indices intersections cumulative =
     (case position_results of
        [] \<Rightarrow> Inl ValueError
      | (_, bindings) # _ \<Rightarrow>
          (let position_variables = fmdom bindings;
               intersecting_variables = sorted_list_of_fset (cumulative |\<inter>| position_variables)
           in case index_results intersecting_variables position_results (\<lambda>_. []) of
                Inl e \<Rightarrow> Inl e
              | Inr index \<Rightarrow>
                  index_positions results (indices @ [index])
                    (intersections @ [intersecting_variables])
                    (cumulative |\<union>| position_variables)))"

fun for_each :: "('x \<Rightarrow> error + 'a list) \<Rightarrow> 'x list \<Rightarrow> error + 'a list" where
  \<comment> \<open>a \<open>for\<close> loop whose body appends to one list: what all iterations appended, in order,
      unless one raises\<close>
  "for_each f [] = Inr []"
| "for_each f (x # xs) =
     (case f x of
        Inl e \<Rightarrow> Inl e
      | Inr rs \<Rightarrow> (case for_each f xs of Inl e \<Rightarrow> Inl e | Inr rs' \<Rightarrow> Inr (rs @ rs')))"

function consolidate_recursively ::
  "index_t list \<Rightarrow> str list list \<Rightarrow> nat \<Rightarrow> nat \<Rightarrow> ConsolidatedResult \<Rightarrow> Bindings \<Rightarrow>
   error + ConsolidatedResults" where
  \<comment> \<open>\<open>n\<close> is \<open>len(results)\<close>; the value is what the call appends to \<open>consolidated\<close>\<close>
  "consolidate_recursively indices intersections n position current bindings =
     (if position = n then Inr [current]
      else if length indices \<le> position \<or> length intersections \<le> position then Inl IndexError
      else (case extract_values bindings (intersections ! position) of
              Inl e \<Rightarrow> Inl e
            | Inr vs \<Rightarrow>
                for_each (\<lambda>(item, position_bindings).
                            consolidate_recursively indices intersections n (Suc position)
                              (current @ [item]) (bindings ++\<^sub>f position_bindings))
                         ((indices ! position) vs)))"
  by pat_completeness auto
termination
  by (relation "measure (\<lambda>(indices, intersections, n, position, current, bindings).
                   length indices - position)") auto

declare consolidate_recursively.simps [simp del]

definition consolidate_results :: "SearchResults list \<Rightarrow> error + ConsolidatedResults" where
  "consolidate_results results =
     (if \<not> list_all (\<lambda>position_results. position_results \<noteq> []) results then Inr []
      else (case index_positions results [] [] {||} of
              Inl e \<Rightarrow> Inl e
            | Inr (indices, intersections) \<Rightarrow>
                consolidate_recursively indices intersections (length results) 0 [] fmempty))"

section \<open>Normalisation and validation of an entry\<close>

definition MAX_NON_COMBINING_LENGTH :: nat where
  "MAX_NON_COMBINING_LENGTH = 20"

definition is_direction_mark :: "codepoint \<Rightarrow> bool" where
  \<comment> \<open>the class \<open>[U+200E U+200F]\<close>\<close>
  "is_direction_mark c = (c = 8206 \<or> c = 8207)"

definition rstrip_while :: "('a \<Rightarrow> bool) \<Rightarrow> 'a list \<Rightarrow> 'a list" where
  "rstrip_while P xs = rev (dropWhile P (rev xs))"

definition sub_leading_marks :: "str \<Rightarrow> str" where
  \<comment> \<open>\<open>re.sub(r'^[U+200E U+200F]+', '', text)\<close>\<close>
  "sub_leading_marks text = dropWhile is_direction_mark text"

definition sub_trailing_marks :: "str \<Rightarrow> str" where
  \<comment> \<open>\<open>re.sub(r'[U+200E U+200F]+$', '', text)\<close>; without \<open>re.MULTILINE\<close> the \<open>$\<close> matches at
      the end of the text and also before a newline that ends it\<close>
  "sub_trailing_marks text =
     (if text \<noteq> [] \<and> last text = 10 \<and> butlast text \<noteq> [] \<and> is_direction_mark (last (butlast text))
      then rstrip_while is_direction_mark (butlast text) @ [10]
      else rstrip_while is_direction_mark text)"

function sub_whitespace :: "unicodedata \<Rightarrow> str \<Rightarrow> str" where
  \<comment> \<open>\<open>re.sub(r'\s+', ' ', text)\<close>: every maximal run of whitespace becomes one space\<close>
  "sub_whitespace U [] = []"
| "sub_whitespace U (c # cs) =
     (if isspace U c then 32 # sub_whitespace U (dropWhile (isspace U) cs)
      else c # sub_whitespace U cs)"
  by pat_completeness auto
termination
  by (relation "measure (\<lambda>(U, text). length text)")
     (auto simp: less_Suc_eq_le length_dropWhile_le)

definition NORMALIZATION_REPLACEMENTS :: "unicodedata \<Rightarrow> (str \<Rightarrow> str) list" where
  \<comment> \<open>each pair (pattern, replacement) as the substitution \<open>re.sub\<close> performs with it\<close>
  "NORMALIZATION_REPLACEMENTS U = [sub_leading_marks, sub_trailing_marks, sub_whitespace U]"

definition str_strip :: "unicodedata \<Rightarrow> str \<Rightarrow> str" where
  \<comment> \<open>\<open>text.strip()\<close>\<close>
  "str_strip U text = rstrip_while (isspace U) (dropWhile (isspace U) text)"

definition normalize :: "unicodedata \<Rightarrow> str \<Rightarrow> str" where
  "normalize U text =
     str_strip U (fold (\<lambda>replacement text. replacement text) (NORMALIZATION_REPLACEMENTS U) (nfd U text))"

fun after_closing :: "str \<Rightarrow> str option" where
  \<comment> \<open>what follows the first \<open>)\<close>, if there is one: the match of \<open>[^)]*\)\<close>\<close>
  "after_closing [] = None"
| "after_closing (c # cs) = (if c = 41 then Some cs else after_closing cs)"

fun match_parenthesised :: "str \<Rightarrow> str option" where
  \<comment> \<open>the rest of the text after a match of \<open> ?\([^)]*\)\<close> at its start\<close>
  "match_parenthesised (c # cs) =
     (if c = 32 \<and> cs \<noteq> [] \<and> hd cs = 40 then after_closing (tl cs)
      else if c = 40 then after_closing cs
      else None)"
| "match_parenthesised [] = None"

function sub_parenthesised :: "str \<Rightarrow> str" where
  \<comment> \<open>\<open>re.sub(r' ?\([^)]*\)', '', word)\<close>\<close>
  "sub_parenthesised [] = []"
| "sub_parenthesised (c # cs) =
     (case match_parenthesised (c # cs) of
        Some rest \<Rightarrow> sub_parenthesised rest
      | None \<Rightarrow> c # sub_parenthesised cs)"
  by pat_completeness auto
termination
proof (relation "measure length")
  fix c cs rest
  assume m: "match_parenthesised (c # cs) = Some rest"
  have a: "after_closing s = Some r \<Longrightarrow> length r < length s" for s r
    by (induction s) (auto split: if_splits)
  have "length rest < length (c # cs)"
  proof (cases "c = 32 \<and> cs \<noteq> [] \<and> hd cs = 40")
    case True
    with m have "after_closing (tl cs) = Some rest" by simp
    from a[OF this] show ?thesis by simp
  next
    case False
    with m have "after_closing cs = Some rest" by (simp split: if_splits)
    from a[OF this] show ?thesis by simp
  qed
  then show "(rest, c # cs) \<in> measure length" by simp
qed simp_all

definition EXTRA_WORD_NORMALIZATION_RULES :: "str \<Rightarrow> (str \<Rightarrow> str) list" where
  \<comment> \<open>\<open>EXTRA_WORD_NORMALIZATION_RULES.get(language, [])\<close>\<close>
  "EXTRA_WORD_NORMALIZATION_RULES language =
     (if language = lit ''ja'' then [sub_parenthesised] else [])"

definition extra_normalize_word :: "str \<Rightarrow> str \<Rightarrow> str" where
  "extra_normalize_word word language =
     fold (\<lambda>replacement word. replacement word) (EXTRA_WORD_NORMALIZATION_RULES language) word"

definition count_non_combining_characters :: "unicodedata \<Rightarrow> str \<Rightarrow> nat" where
  "count_non_combining_characters U text = length (filter (\<lambda>character. combining U character = 0) text)"

definition LATIN_PATTERN :: "codepoint \<Rightarrow> bool" where
  \<comment> \<open>\<open>re.fullmatch\<close> of \<open>[a-z -]\<close> with \<open>re.IGNORECASE\<close> on one character: the 52 ASCII
      letters, space, hyphen, and the four letters whose case folding is ASCII
      (U+0130, U+0131, U+017F, U+212A)\<close>
  "LATIN_PATTERN c =
     ((97 \<le> c \<and> c \<le> 122) \<or> (65 \<le> c \<and> c \<le> 90) \<or> c = 32 \<or> c = 45
      \<or> c = 304 \<or> c = 305 \<or> c = 383 \<or> c = 8490)"

definition is_valid_entry :: "unicodedata \<Rightarrow> Entry \<Rightarrow> bool \<Rightarrow> bool" where
  "is_valid_entry U entry is_ipa =
     (case entry of (language, word, romanization) \<Rightarrow>
        (language \<noteq> [] \<and> word \<noteq> [] \<and> romanization \<noteq> []) \<and>
        (is_ipa \<or>
          (list_all (\<lambda>text. count_non_combining_characters U text \<le> MAX_NON_COMBINING_LENGTH)
             [word, romanization]
           \<and> \<not> list_all (\<lambda>character. combining U character \<noteq> 0 \<or> LATIN_PATTERN character) word)))"

section \<open>The pattern-group extractor: \<open>search_triples\<close>\<close>

definition and_then :: "'a outcome \<Rightarrow> ('a \<Rightarrow> 'b outcome) \<Rightarrow> 'b outcome" where
  \<comment> \<open>one evaluation after another: an exception ends the sequence, the warnings add up\<close>
  "and_then m f =
     (case m of
        (Inl e, w) \<Rightarrow> (Inl e, w)
      | (Inr x, w) \<Rightarrow> (case f x of (r, w') \<Rightarrow> (r, w @ w')))"

fun search_conditions ::
  "unicodedata \<Rightarrow> json \<Rightarrow> (SearchPattern \<times> str) list \<Rightarrow> SearchResults list outcome" where
  \<comment> \<open>\<open>condition_results\<close>\<close>
  "search_conditions U data [] = (Inr [], [])"
| "search_conditions U data ((pattern, required) # conditions) =
     and_then (search_values U False pattern data) (\<lambda>results.
     and_then (search_conditions U data conditions) (\<lambda>condition_results.
       (Inr (filter (\<lambda>(v, bindings). v = required) results # condition_results), [])))"

definition search_positions :: "unicodedata \<Rightarrow> SearchPatterns \<Rightarrow> json \<Rightarrow> SearchResults list outcome" where
  \<comment> \<open>the arguments of the call of \<open>consolidate_results\<close>, evaluated left to right\<close>
  "search_positions U patterns data =
     (case patterns of (language_pattern, word_pattern, romanization_pattern, conditions) \<Rightarrow>
        and_then (search_conditions U data conditions) (\<lambda>condition_results.
        and_then (search_values U True language_pattern data) (\<lambda>languages.
        and_then (search_values U False word_pattern data) (\<lambda>words.
        and_then (search_values U False romanization_pattern data) (\<lambda>romanizations.
          (Inr (condition_results @ [languages, words, romanizations]), []))))))"

definition unpack_last_three :: "ConsolidatedResult \<Rightarrow> error + Entry" where
  \<comment> \<open>\<open>*_, language, word, romanization\<close>\<close>
  "unpack_last_three consolidated =
     (case rev consolidated of
        romanization # word # language # _ \<Rightarrow> Inr (language, word, romanization)
      | _ \<Rightarrow> Inl ValueError)"

fun select_entries :: "unicodedata \<Rightarrow> bool \<Rightarrow> ConsolidatedResults \<Rightarrow> error + Entry list" where
  \<comment> \<open>the comprehension over the consolidated tuples\<close>
  "select_entries U is_ipa [] = Inr []"
| "select_entries U is_ipa (consolidated # rest) =
     (case unpack_last_three consolidated of
        Inl e \<Rightarrow> Inl e
      | Inr (language, word, romanization) \<Rightarrow>
          (let entry = (language, extra_normalize_word (normalize U word) language,
                        normalize U romanization)
           in case select_entries U is_ipa rest of
                Inl e \<Rightarrow> Inl e
              | Inr entries \<Rightarrow>
                  Inr (if is_valid_entry U entry is_ipa then entry # entries else entries)))"

definition search_triples :: "unicodedata \<Rightarrow> SearchPatterns \<Rightarrow> json \<Rightarrow> bool \<Rightarrow> Entry list outcome" where
  "search_triples U patterns data is_ipa =
     and_then (search_positions U patterns data) (\<lambda>results.
       (case consolidate_results results of
          Inl e \<Rightarrow> (Inl e, [])
        | Inr consolidated \<Rightarrow> (select_entries U is_ipa consolidated, [])))"

definition IPA_PATTERNS :: "SearchPatterns list" where
  "IPA_PATTERNS =
     [(lit ''lang_code'', lit ''word'', lit ''sounds/N/ipa'', []),
      (lit ''lang_code'', lit ''forms/N/form'', lit ''forms/N/ipa'', [])]"

definition blocked :: "unicodedata \<Rightarrow> str list \<Rightarrow> Bindings \<Rightarrow> bool" where
  \<comment> \<open>some variable of the remaining path is bound already or occurs twice in it\<close>
  "blocked U path bindings =
     (\<not> distinct (filter (is_variable_name U) path) \<or>
      list_ex (\<lambda>segment. is_variable_name U segment \<and> segment |\<in>| fmdom bindings) path)"

section \<open>Notions for reasoning about the join\<close>

definition position_variables :: "SearchResults \<Rightarrow> str fset" where
  \<comment> \<open>the variables \<open>consolidate_results\<close> reads off the first result of a position\<close>
  "position_variables position_results = fmdom (snd (hd position_results))"

definition uniform :: "SearchResults \<Rightarrow> bool" where
  \<comment> \<open>all results of a position bind the same variables, as the results of one pattern do\<close>
  "uniform position_results =
     list_all (\<lambda>result. fmdom (snd result) = position_variables position_results) position_results"

definition cumulative_after :: "SearchResults list \<Rightarrow> str fset \<Rightarrow> str fset" where
  \<comment> \<open>the set \<open>cumulative\<close> after the loop has passed the given positions\<close>
  "cumulative_after results cumulative =
     fold (\<lambda>position_results seen. seen |\<union>| position_variables position_results) results cumulative"

fun intersections_from :: "str fset \<Rightarrow> SearchResults list \<Rightarrow> str list list" where
  \<comment> \<open>the list \<open>intersections\<close> the loop builds, as a function of its inputs\<close>
  "intersections_from cumulative [] = []"
| "intersections_from cumulative (position_results # results) =
     sorted_list_of_fset (cumulative |\<inter>| position_variables position_results)
       # intersections_from (cumulative |\<union>| position_variables position_results) results"

section \<open>The specification's wording of the traversal\<close>

fun reached :: "unicodedata \<Rightarrow> str list \<Rightarrow> json \<Rightarrow> Bindings \<Rightarrow> (json \<times> Bindings) list" where
  \<comment> \<open>the nodes at which the traversal of a tree exhausts the segments of a path, each with
      the bindings made on the way, in traversal order: a literal key descends into the
      value of that key of an object, a variable into every element of a list\<close>
  "reached U [] node bindings = [(node, bindings)]"
| "reached U (key # path_tail) node bindings =
     (if is_variable_name U key then
        (case node of
           JList items \<Rightarrow>
             concat (map (\<lambda>(index, item). reached U path_tail item (fmupd key index bindings))
                         (enumerate_py items))
         | _ \<Rightarrow> [])
      else (case node of
              JDict d \<Rightarrow>
                (case fmlookup d key of
                   Some child \<Rightarrow> reached U path_tail child bindings
                 | None \<Rightarrow> [])
            | _ \<Rightarrow> []))"

definition emitted :: "(json \<times> Bindings) list \<Rightarrow> SearchResults" where
  \<comment> \<open>one result for each reached node that is a string; the others contribute none\<close>
  "emitted terminals = [(s, bindings). (JStr s, bindings) \<leftarrow> terminals]"

definition warned :: "bool \<Rightarrow> (json \<times> Bindings) list \<Rightarrow> warning list" where
  \<comment> \<open>one warning for each reached node that is not a string, except for \<open>None\<close> when the
      caller asked to ignore it silently\<close>
  "warned silently_ignore_none terminals =
     [NotAString node. (node, bindings) \<leftarrow> terminals, \<not> isinstance_str node,
                       \<not> (silently_ignore_none \<and> node = JNull)]"

section \<open>The specification's wording of the extractor\<close>

text \<open>
  What the claims about \<open>search_triples\<close> say in words, as definitions of their own, to be
  compared with the functions above.
\<close>

definition last_three :: "ConsolidatedResult \<Rightarrow> Entry" where
  \<comment> \<open>the last three components of a consolidated tuple\<close>
  "last_three consolidated =
     (consolidated ! (length consolidated - 3), consolidated ! (length consolidated - 2),
      consolidated ! (length consolidated - 1))"

definition normalized_entry :: "unicodedata \<Rightarrow> Entry \<Rightarrow> Entry" where
  \<comment> \<open>the entry the code builds from the three components before it validates\<close>
  "normalized_entry U components =
     (case components of (language, word, pronunciation) \<Rightarrow>
        (language, extra_normalize_word (normalize U word) language, normalize U pronunciation))"

definition passes_validation :: "unicodedata \<Rightarrow> bool \<Rightarrow> Entry \<Rightarrow> bool" where
  \<comment> \<open>all three non-empty; and, unless the extraction is for IPA, neither word nor
      pronunciation above the length limit, and some character of the word neither a
      combining mark nor in the Latin range\<close>
  "passes_validation U is_ipa entry =
     (case entry of (language, word, pronunciation) \<Rightarrow>
        language \<noteq> [] \<and> word \<noteq> [] \<and> pronunciation \<noteq> [] \<and>
        (is_ipa \<or>
          (count_non_combining_characters U word \<le> 20
           \<and> count_non_combining_characters U pronunciation \<le> 20
           \<and> (\<exists>character \<in> set word. combining U character = 0 \<and> \<not> LATIN_PATTERN character))))"

definition results_of :: "'a list outcome \<Rightarrow> 'a list" where
  \<comment> \<open>the results an evaluation returned; none when it raised\<close>
  "results_of outcome = (case fst outcome of Inr results \<Rightarrow> results | Inl e \<Rightarrow> [])"

definition filtered_condition :: "unicodedata \<Rightarrow> json \<Rightarrow> SearchPattern \<times> str \<Rightarrow> SearchResults" where
  \<comment> \<open>the results of a condition's pattern whose terminal value is the required literal\<close>
  "filtered_condition U data condition =
     (case condition of (pattern, required) \<Rightarrow>
        filter (\<lambda>(v, bindings). v = required) (results_of (search_values U False pattern data)))"

section \<open>Example documents\<close>

definition null_and_number_document :: json where
  \<comment> \<open>\<open>{"lang_code": null, "forms": [{"form": "x"}, {"form": null}, {"form": 3}]}\<close>\<close>
  "null_and_number_document =
     JDict (fmap_of_list
       [(lit ''lang_code'', JNull),
        (lit ''forms'', JList
           [JDict (fmap_of_list [(lit ''form'', JStr (lit ''x''))]),
            JDict (fmap_of_list [(lit ''form'', JNull)]),
            JDict (fmap_of_list [(lit ''form'', JInt 3)])])])"

definition cat_document :: json where
  \<comment> \<open>\<open>{"lang_code": "en", "word": "cat", "sounds": [{"ipa": "/kat/"}]}\<close>\<close>
  "cat_document =
     JDict (fmap_of_list
       [(lit ''lang_code'', JStr (lit ''en'')),
        (lit ''word'', JStr (lit ''cat'')),
        (lit ''sounds'', JList [JDict (fmap_of_list [(lit ''ipa'', JStr (lit ''/kat/''))])])])"

definition blank_word_document :: json where
  \<comment> \<open>\<open>{"lang_code": "en", "word": " ", "sounds": [{"ipa": "x"}]}\<close>\<close>
  "blank_word_document =
     JDict (fmap_of_list
       [(lit ''lang_code'', JStr (lit ''en'')),
        (lit ''word'', JStr (lit '' '')),
        (lit ''sounds'', JList [JDict (fmap_of_list [(lit ''ipa'', JStr (lit ''x''))])])])"

definition canonical_form_document :: json where
  \<comment> \<open>\<open>{"lang_code": "ru", "word": "x", "forms": [{"form": "y", "tags": ["canonical"]}]}\<close>\<close>
  "canonical_form_document =
     JDict (fmap_of_list
       [(lit ''lang_code'', JStr (lit ''ru'')),
        (lit ''word'', JStr (lit ''x'')),
        (lit ''forms'', JList [JDict (fmap_of_list
           [(lit ''form'', JStr (lit ''y'')),
            (lit ''tags'', JList [JStr (lit ''canonical'')])])])])"

definition romanization_form_pattern :: SearchPatterns where
  \<comment> \<open>the entry of \<open>ROMANIZATION_PATTERNS\<close> with the condition on \<open>forms/N/tags/T\<close>\<close>
  "romanization_form_pattern =
     (lit ''lang_code'', lit ''word'', lit ''forms/N/form'',
      [(lit ''forms/N/tags/T'', lit ''romanization'')])"

section \<open>Properties of the pattern evaluator\<close>

subsection \<open>The terminal case\<close>

lemma terminal_cases:
  "search_recursively U sil [] item bnd =
     (Inr (case item of JStr s \<Rightarrow> [(s, bnd)] | _ \<Rightarrow> []),
      if \<not> isinstance_str item \<and> \<not> (sil \<and> item = JNull) then [NotAString item] else [])"
  by (cases item) simp_all

subsection \<open>Patterns without variables\<close>

lemma search_recursively_no_variables:
  "\<forall>segment \<in> set path. \<not> is_variable_name U segment \<Longrightarrow>
   \<exists>rs w. search_recursively U sil path node bnd = (Inr rs, w) \<and> length rs \<le> 1
          \<and> (\<forall>r \<in> set rs. snd r = bnd)"
proof (induction path arbitrary: node)
  case Nil
  show ?case by (cases node) simp_all
next
  case (Cons key path)
  then show ?case by (auto split: json.splits option.splits)
qed

text \<open>
  Claim C6. A pattern none of whose segments is a variable name evaluates, on every tree,
  without an exception to at most one result, and the bindings of that result are empty.
\<close>

theorem no_variables_at_most_one_result:
  assumes "\<forall>segment \<in> set (str_split SEARCH_PATTERN_DELIMITER pattern). \<not> is_variable_name U segment"
  shows "\<exists>rs w. search_values U silently_ignore_none pattern data = (Inr rs, w)
           \<and> length rs \<le> 1 \<and> (\<forall>r \<in> set rs. snd r = fmempty)"
  unfolding search_values_def using search_recursively_no_variables [OF assms] by blast

theorem no_variables_at_most_one_result_witness:
  "\<exists>rs w. search_values ascii_tables True (lit ''lang_code'')
             (JDict (fmap_of_list [(lit ''lang_code'', JStr (lit ''ja''))])) = (Inr rs, w)
           \<and> length rs \<le> 1 \<and> (\<forall>r \<in> set rs. snd r = fmempty)"
proof -
  have "\<forall>segment \<in> set (str_split SEARCH_PATTERN_DELIMITER (lit ''lang_code'')).
          \<not> is_variable_name ascii_tables segment"
    by code_simp
  then show ?thesis by (rule no_variables_at_most_one_result)
qed

subsection \<open>One variable over a list\<close>

lemma collect_pure:
  "(\<And>x. x \<in> set xs \<Longrightarrow> f x = (Inr (g x), h x)) \<Longrightarrow>
   collect f xs = (Inr (concat (map g xs)), concat (map h xs))"
  by (induction xs) simp_all

text \<open>
  Claim C5, as the code has it. For a variable name \<open>V\<close> and a list node, the pattern \<open>V\<close>
  returns one result for each element that is a string, in list order: the element itself
  with the bindings \<open>{V: i}\<close>, \<open>i\<close> its index in the whole list. An element that is not a
  string gives no result (and a warning, unless it is \<open>None\<close> and the caller silenced
  those); it does not shift the indices of the others. So the number of results is the
  number of string elements, which is the length of the list only when all are strings.
\<close>

theorem single_variable_over_list:
  assumes "isupper U v" and "v \<noteq> SEARCH_PATTERN_DELIMITER"
  shows "search_values U silently_ignore_none [v] (JList items) =
     (Inr [(s, fmupd [v] i fmempty). (i, JStr s) \<leftarrow> enumerate_py items],
      [NotAString item. item \<leftarrow> items, \<not> isinstance_str item,
                       \<not> (silently_ignore_none \<and> item = JNull)])"
proof -
  let ?sil = silently_ignore_none
  let ?f = "\<lambda>(index, item). search_recursively U ?sil [] item (fmupd [v] index fmempty)"
  have "collect ?f (enumerate_py items) =
     (Inr (concat (map (\<lambda>(i, item). case item of JStr s \<Rightarrow> [(s, fmupd [v] i fmempty)] | _ \<Rightarrow> [])
                     (enumerate_py items))),
      concat (map (\<lambda>(i, item). if \<not> isinstance_str item \<and> \<not> (?sil \<and> item = JNull)
                                then [NotAString item] else [])
                (enumerate_py items)))"
    by (rule collect_pure) (auto simp del: search_recursively.simps simp add: terminal_cases)
  moreover have "concat (map (\<lambda>(i, item). if \<not> isinstance_str item \<and> \<not> (?sil \<and> item = JNull)
                                           then [NotAString item] else [])
                           (enumerate_py items))
      = [NotAString item. item \<leftarrow> items, \<not> isinstance_str item, \<not> (?sil \<and> item = JNull)]"
    unfolding enumerate_py_def
    by (induction items rule: rev_induct) (simp_all add: enumerate_append_eq)
  moreover have "concat (map (\<lambda>(i, item). case item of JStr s \<Rightarrow> [(s, fmupd [v] i fmempty)] | _ \<Rightarrow> [])
                           (enumerate_py items))
      = [(s, fmupd [v] i fmempty). (i, JStr s) \<leftarrow> enumerate_py items]"
    by (rule arg_cong [where f = concat], rule map_cong) (auto split: json.splits)
  ultimately show ?thesis
    using assms by (simp add: search_values_def is_variable_name_def)
qed

theorem single_variable_over_list_witness:
  "search_values ascii_tables False (lit ''V'')
     (JList [JStr (lit ''a''), JNull, JStr (lit ''b'')]) =
     (Inr [(lit ''a'', fmupd (lit ''V'') 0 fmempty), (lit ''b'', fmupd (lit ''V'') 2 fmempty)],
      [NotAString JNull])"
proof -
  have u: "isupper ascii_tables 86" and d: "86 \<noteq> SEARCH_PATTERN_DELIMITER"
    by (simp_all add: ascii_tables_def SEARCH_PATTERN_DELIMITER_def)
  show ?thesis
    using single_variable_over_list [OF u d, of False "[JStr (lit ''a''), JNull, JStr (lit ''b'')]"]
    by (simp add: lit_def enumerate_py_def enumerate_eq_zip)
qed

text \<open>
  The claim as the specification words it (exactly \<open>n\<close> results for a list of length
  \<open>n\<close>) fails on a list with an element that is not a string: here the list has two
  elements and the evaluation returns one result.
\<close>

theorem single_variable_over_list_counterexample:
  "search_values ascii_tables False (lit ''V'') (JList [JInt 1, JStr (lit ''a'')]) =
     (Inr [(lit ''a'', fmupd (lit ''V'') 1 fmempty)], [NotAString (JInt 1)])
   \<and> length [(lit ''a'', fmupd (lit ''V'') (1::int) fmempty)] < length [JInt 1, JStr (lit ''a'')]"
  by (simp add: search_values_def lit_def SEARCH_PATTERN_DELIMITER_def is_variable_name_def
      ascii_tables_def enumerate_py_def enumerate_eq_zip)

subsection \<open>A variable name that occurs twice\<close>





lemma collect_ok:
  "(\<And>x. \<exists>rs w. f x = (Inr rs, w)) \<Longrightarrow> \<exists>rs w. collect f xs = (Inr rs, w)"
proof (induction xs)
  case Nil show ?case by simp
next
  case (Cons x xs)
  from Cons.prems obtain rs w where "f x = (Inr rs, w)" by blast
  moreover from Cons obtain rs' w' where "collect f xs = (Inr rs', w')" by blast
  ultimately show ?case by simp
qed

lemma safe_rec:
  "\<not> blocked U path bnd \<Longrightarrow> \<exists>rs w. search_recursively U sil path node bnd = (Inr rs, w)"
proof (induction path arbitrary: node bnd)
  case Nil
  show ?case by (cases node) simp_all
next
  case (Cons key path)
  show ?case
  proof (cases "is_variable_name U key")
    case var: True
    from Cons.prems var have nk: "key |\<notin>| fmdom bnd" by (auto simp: blocked_def list_ex_iff)
    from Cons.prems var have d: "\<not> blocked U path (fmupd key i bnd)" for i
      by (auto simp: blocked_def list_ex_iff)
    show ?thesis
    proof (cases node)
      case (JList items)
      have "\<exists>rs w. collect (\<lambda>(index, item). search_recursively U sil path item (fmupd key index bnd)) (enumerate_py items) = (Inr rs, w)"
      proof (rule collect_ok)
        fix x :: "int \<times> json"
        show "\<exists>rs w. (\<lambda>(index, item). search_recursively U sil path item (fmupd key index bnd)) x = (Inr rs, w)"
          using Cons.IH[OF d[of "fst x"], of "snd x"] by (simp add: split_def)
      qed
      with var nk JList show ?thesis by simp
    qed (use var nk in simp_all)
  next
    case False
    with Cons.prems have d: "\<not> blocked U path bnd" by (auto simp: blocked_def list_ex_iff)
    show ?thesis
    proof (cases node)
      case (JDict d')
      show ?thesis
      proof (cases "fmlookup d' key")
        case None
        with False JDict show ?thesis by simp
      next
        case (Some child)
        with False JDict Cons.IH[OF d, of child] show ?thesis by simp
      qed
    qed (use False in simp_all)
  qed
qed

lemma search_values_no_abort:
  "\<not> has_repeated_variable U pattern \<Longrightarrow> \<exists>rs w. search_values U sil pattern data = (Inr rs, w)"
  unfolding has_repeated_variable_def search_values_def by (rule safe_rec) (simp add: blocked_def list_ex_iff)




subsection \<open>Branches that end at a node that is not a string\<close>

lemma emitted_concat: "emitted (concat xss) = concat (map emitted xss)"
  by (induction xss) (simp_all add: emitted_def)

lemma warned_concat: "warned sil (concat xss) = concat (map (warned sil) xss)"
  by (induction xss) (simp_all add: warned_def)

lemma collect_Inr_eq:
  "collect f xs = (Inr rs, w) \<Longrightarrow>
   (\<And>x rs' w'. x \<in> set xs \<Longrightarrow> f x = (Inr rs', w') \<Longrightarrow> rs' = g x \<and> w' = h x) \<Longrightarrow>
   rs = concat (map g xs) \<and> w = concat (map h xs)"
proof (induction xs arbitrary: rs w)
  case Nil
  then show ?case by simp
next
  case (Cons x xs)
  from Cons.prems(1) obtain r1 w1 r2 w2 where
    fx: "f x = (Inr r1, w1)" and cx: "collect f xs = (Inr r2, w2)"
    and rs: "rs = r1 @ r2" and w: "w = w1 @ w2"
    by (auto split: sum.splits prod.splits)
  from Cons.prems(2)[OF _ fx] have "r1 = g x \<and> w1 = h x" by simp
  moreover from Cons.IH[OF cx] Cons.prems(2) have "r2 = concat (map g xs) \<and> w2 = concat (map h xs)"
    by simp
  ultimately show ?case using rs w by simp
qed

lemma search_recursively_reached:
  "search_recursively U sil path node bnd = (Inr rs, w) \<Longrightarrow>
   rs = emitted (reached U path node bnd) \<and> w = warned sil (reached U path node bnd)"
proof (induction path arbitrary: node bnd rs w)
  case Nil
  then show ?case by (cases node) (auto simp: emitted_def warned_def split: if_splits)
next
  case (Cons key path)
  show ?case
  proof (cases "is_variable_name U key")
    case var: True
    show ?thesis
    proof (cases "key |\<in>| fmdom bnd")
      case True
      with var Cons.prems show ?thesis by simp
    next
      case False
      show ?thesis
      proof (cases node)
        case (JList items)
        with var False Cons.prems have c: "collect (\<lambda>(index, item). search_recursively U sil path item (fmupd key index bnd)) (enumerate_py items) = (Inr rs, w)"
          by simp
        have "rs = concat (map (\<lambda>x. emitted (reached U path (snd x) (fmupd key (fst x) bnd))) (enumerate_py items))
            \<and> w = concat (map (\<lambda>x. warned sil (reached U path (snd x) (fmupd key (fst x) bnd))) (enumerate_py items))"
        proof (rule collect_Inr_eq[OF c])
          fix x :: "int \<times> json" and rs' w'
          assume "(case x of (index, item) \<Rightarrow> search_recursively U sil path item (fmupd key index bnd)) = (Inr rs', w')"
          then have "search_recursively U sil path (snd x) (fmupd key (fst x) bnd) = (Inr rs', w')"
            by (simp add: split_def)
          from Cons.IH[OF this]
          show "rs' = emitted (reached U path (snd x) (fmupd key (fst x) bnd))
              \<and> w' = warned sil (reached U path (snd x) (fmupd key (fst x) bnd))" .
        qed
        with var JList show ?thesis
          by (simp add: emitted_concat warned_concat comp_def split_def)
      qed (use var False Cons.prems in \<open>simp_all add: emitted_def warned_def\<close>)
    qed
  next
    case False
    show ?thesis
    proof (cases node)
      case (JDict d)
      show ?thesis
      proof (cases "fmlookup d key")
        case None
        with False JDict Cons.prems show ?thesis by (simp add: emitted_def warned_def)
      next
        case (Some child)
        with False JDict Cons.prems have "search_recursively U sil path child bnd = (Inr rs, w)" by simp
        from Cons.IH[OF this] False JDict Some show ?thesis by simp
      qed
    qed (use False Cons.prems in \<open>simp_all add: emitted_def warned_def\<close>)
  qed
qed

text \<open>
  Claim C7. Whenever the evaluation of a pattern returns, the returned sequence holds
  exactly the nodes at which the traversal exhausted the segments and that are strings,
  each with its bindings, in traversal order: a branch that ends at a node that is not a
  string is omitted. The warnings issued are exactly one for each such branch, in order,
  naming the node, except that a branch ending at \<open>None\<close> issues none when the caller
  passed \<open>silently_ignore_none=True\<close>. For a pattern that repeats no variable name the
  evaluation does return, so then this is its outcome.
\<close>

theorem non_string_terminals_dropped:
  "(\<forall>rs w. search_values U silently_ignore_none pattern data = (Inr rs, w) \<longrightarrow>
      rs = emitted (reached U (str_split SEARCH_PATTERN_DELIMITER pattern) data fmempty)
    \<and> w = warned silently_ignore_none (reached U (str_split SEARCH_PATTERN_DELIMITER pattern) data fmempty))
   \<and> (\<not> has_repeated_variable U pattern \<longrightarrow>
        search_values U silently_ignore_none pattern data =
          (Inr (emitted (reached U (str_split SEARCH_PATTERN_DELIMITER pattern) data fmempty)),
           warned silently_ignore_none (reached U (str_split SEARCH_PATTERN_DELIMITER pattern) data fmempty)))"
proof -
  have a: "rs = emitted (reached U (str_split SEARCH_PATTERN_DELIMITER pattern) data fmempty)
         \<and> w = warned silently_ignore_none (reached U (str_split SEARCH_PATTERN_DELIMITER pattern) data fmempty)"
    if "search_values U silently_ignore_none pattern data = (Inr rs, w)" for rs w
    using search_recursively_reached[OF that[unfolded search_values_def]] .
  have b: "search_values U silently_ignore_none pattern data =
          (Inr (emitted (reached U (str_split SEARCH_PATTERN_DELIMITER pattern) data fmempty)),
           warned silently_ignore_none (reached U (str_split SEARCH_PATTERN_DELIMITER pattern) data fmempty))"
    if "\<not> has_repeated_variable U pattern"
  proof -
    from search_values_no_abort[OF that, of silently_ignore_none data] obtain rs w where
      sv: "search_values U silently_ignore_none pattern data = (Inr rs, w)" by blast
    from a[OF sv] sv show ?thesis by simp
  qed
  from a b show ?thesis by blast
qed

theorem non_string_terminals_dropped_witness:
  "search_values ascii_tables True (lit ''lang_code'') null_and_number_document = (Inr [], [])
   \<and> search_values ascii_tables False (lit ''lang_code'') null_and_number_document
       = (Inr [], [NotAString JNull])
   \<and> search_values ascii_tables True (lit ''forms/N/form'') null_and_number_document
       = (Inr [(lit ''x'', fmupd (lit ''N'') 0 fmempty)], [NotAString (JInt 3)])
   \<and> search_values ascii_tables False (lit ''forms/N/form'') null_and_number_document
       = (Inr [(lit ''x'', fmupd (lit ''N'') 0 fmempty)], [NotAString JNull, NotAString (JInt 3)])"
proof -
  have n1: "\<not> has_repeated_variable ascii_tables (lit ''lang_code'')"
    and n2: "\<not> has_repeated_variable ascii_tables (lit ''forms/N/form'')"
    by code_simp+
  have r1: "reached ascii_tables (str_split SEARCH_PATTERN_DELIMITER (lit ''lang_code''))
              null_and_number_document fmempty = [(JNull, fmempty)]"
    by code_simp
  have r2: "reached ascii_tables (str_split SEARCH_PATTERN_DELIMITER (lit ''forms/N/form''))
              null_and_number_document fmempty =
            [(JStr (lit ''x''), fmupd (lit ''N'') 0 fmempty), (JNull, fmupd (lit ''N'') 1 fmempty),
             (JInt 3, fmupd (lit ''N'') 2 fmempty)]"
    by code_simp
  have e1: "emitted [(JNull, fmempty)] = []"
    and w1: "warned True [(JNull, fmempty)] = []"
    and w1': "warned False [(JNull, fmempty)] = [NotAString JNull]"
    by (simp_all add: emitted_def warned_def)
  have e2: "emitted [(JStr (lit ''x''), fmupd (lit ''N'') 0 fmempty), (JNull, fmupd (lit ''N'') 1 fmempty),
             (JInt 3, fmupd (lit ''N'') 2 fmempty)] = [(lit ''x'', fmupd (lit ''N'') 0 fmempty)]"
    and w2: "warned True [(JStr (lit ''x''), fmupd (lit ''N'') 0 fmempty), (JNull, fmupd (lit ''N'') 1 fmempty),
             (JInt 3, fmupd (lit ''N'') 2 fmempty)] = [NotAString (JInt 3)]"
    and w2': "warned False [(JStr (lit ''x''), fmupd (lit ''N'') 0 fmempty), (JNull, fmupd (lit ''N'') 1 fmempty),
             (JInt 3, fmupd (lit ''N'') 2 fmempty)] = [NotAString JNull, NotAString (JInt 3)]"
    by (simp_all add: emitted_def warned_def)
  from non_string_terminals_dropped [of ascii_tables True "lit ''lang_code''" null_and_number_document] n1
  have a: "search_values ascii_tables True (lit ''lang_code'') null_and_number_document = (Inr [], [])"
    unfolding r1 e1 w1 by blast
  from non_string_terminals_dropped [of ascii_tables False "lit ''lang_code''" null_and_number_document] n1
  have b: "search_values ascii_tables False (lit ''lang_code'') null_and_number_document
       = (Inr [], [NotAString JNull])"
    unfolding r1 e1 w1' by blast
  from non_string_terminals_dropped [of ascii_tables True "lit ''forms/N/form''" null_and_number_document] n2
  have c: "search_values ascii_tables True (lit ''forms/N/form'') null_and_number_document
       = (Inr [(lit ''x'', fmupd (lit ''N'') 0 fmempty)], [NotAString (JInt 3)])"
    unfolding r2 e2 w2 by blast
  from non_string_terminals_dropped [of ascii_tables False "lit ''forms/N/form''" null_and_number_document] n2
  have d: "search_values ascii_tables False (lit ''forms/N/form'') null_and_number_document
       = (Inr [(lit ''x'', fmupd (lit ''N'') 0 fmempty)], [NotAString JNull, NotAString (JInt 3)])"
    unfolding r2 e2 w2' by blast
  from a b c d show ?thesis by blast
qed

section \<open>Properties of the join\<close>

lemma extract_values_Inr:
  "fset_of_list vars |\<subseteq>| fmdom b \<Longrightarrow> extract_values b vars = Inr (map (\<lambda>v. the (fmlookup b v)) vars)"
  by (induction vars) (auto simp: fmdom_notI split: option.splits)

lemma index_results_ok:
  "\<forall>r \<in> set rs. fset_of_list vars |\<subseteq>| fmdom (snd r) \<Longrightarrow>
   index_results vars rs idx =
     Inr (\<lambda>vs. idx vs @ filter (\<lambda>r. map (\<lambda>v. the (fmlookup (snd r) v)) vars = vs) rs)"
proof (induction rs arbitrary: idx)
  case Nil
  show ?case by simp
next
  case (Cons r rs)
  then show ?case by (auto simp: extract_values_Inr fun_eq_iff)
qed

lemma for_each_pure: "for_each (\<lambda>x. Inr (g x)) xs = Inr (concat (map g xs))"
  by (induction xs) simp_all

lemma for_each_cong: "(\<And>x. x \<in> set xs \<Longrightarrow> f x = g x) \<Longrightarrow> for_each f xs = for_each g xs"
  by (induction xs) (auto split: sum.splits)

lemma sorted_list_of_fset_empty: "sorted_list_of_fset {||} = []"
proof -
  have "set (sorted_list_of_fset ({||} :: 'a fset)) = {}"
    unfolding sorted_list_of_fset_simps by simp
  then show ?thesis by (simp only: set_empty)
qed

lemma index_positions_step:
  assumes "rs \<noteq> []"
    and "index_results (sorted_list_of_fset (cum |\<inter>| fmdom (snd (hd rs)))) rs (\<lambda>_. []) = Inr idx"
  shows "index_positions (rs # rest) is xs cum =
     index_positions rest (is @ [idx]) (xs @ [sorted_list_of_fset (cum |\<inter>| fmdom (snd (hd rs)))])
       (cum |\<union>| fmdom (snd (hd rs)))"
  using assms by (cases rs) (auto simp: Let_def simp del: index_results.simps)

lemma index_positions_two:
  assumes A: "A \<noteq> []" and B: "B \<noteq> []"
    and vars: "vars = sorted_list_of_fset (fmdom (snd (hd A)) |\<inter>| fmdom (snd (hd B)))"
    and dom: "\<forall>r \<in> set B. fset_of_list vars |\<subseteq>| fmdom (snd r)"
  shows "index_positions [A, B] [] [] {||} =
     Inr ([\<lambda>vs. filter (\<lambda>r. [] = vs) A,
           \<lambda>vs. filter (\<lambda>r. map (\<lambda>v. the (fmlookup (snd r) v)) vars = vs) B],
          [[], vars])"
proof -
  have iA: "index_results (sorted_list_of_fset ({||} |\<inter>| fmdom (snd (hd A)))) A (\<lambda>_. []) =
      Inr (\<lambda>vs. filter (\<lambda>r. [] = vs) A)"
    using index_results_ok[of A "[]" "\<lambda>_. []"] by (simp add: sorted_list_of_fset_empty)
  have iB: "index_results (sorted_list_of_fset (({||} |\<union>| fmdom (snd (hd A))) |\<inter>| fmdom (snd (hd B)))) B (\<lambda>_. []) =
      Inr (\<lambda>vs. filter (\<lambda>r. map (\<lambda>v. the (fmlookup (snd r) v)) vars = vs) B)"
    using index_results_ok[OF dom, of "\<lambda>_. []"] by (simp add: vars)
  show ?thesis
    unfolding index_positions_step[OF A iA] index_positions_step[OF B iB]
    by (simp add: vars sorted_list_of_fset_empty)
qed

lemma consolidate_recursively_last:
  "consolidate_recursively indices intersections n n current bindings = Inr [current]"
  by (subst consolidate_recursively.simps) simp

lemma consolidate_recursively_step:
  assumes "position \<noteq> n" and "position < length indices" and "position < length intersections"
    and "extract_values bindings (intersections ! position) = Inr vs"
  shows "consolidate_recursively indices intersections n position current bindings =
     for_each (\<lambda>(item, position_bindings).
                 consolidate_recursively indices intersections n (Suc position)
                   (current @ [item]) (bindings ++\<^sub>f position_bindings))
              ((indices ! position) vs)"
  using assms by (subst consolidate_recursively.simps) simp

lemma consolidate_two:
  assumes A: "A \<noteq> []" and B: "B \<noteq> []"
    and vars: "vars = sorted_list_of_fset (fmdom (snd (hd A)) |\<inter>| fmdom (snd (hd B)))"
    and dom: "\<forall>r \<in> set A \<union> set B. fset_of_list vars |\<subseteq>| fmdom (snd r)"
  shows "consolidate_results [A, B] =
     Inr (concat (map (\<lambda>a. map (\<lambda>b. [fst a, fst b])
            (filter (\<lambda>b. map (\<lambda>v. the (fmlookup (snd b) v)) vars = map (\<lambda>v. the (fmlookup (snd a) v)) vars) B)) A))"
proof -
  define key where "key = (\<lambda>b :: Bindings. map (\<lambda>v. the (fmlookup b v)) vars)"
  define iA :: index_t where "iA = (\<lambda>vs. filter (\<lambda>r. [] = vs) A)"
  define iB :: index_t where "iB = (\<lambda>vs. filter (\<lambda>r. key (snd r) = vs) B)"
  have ip: "index_positions [A, B] [] [] {||} = Inr ([iA, iB], [[], vars])"
    using index_positions_two[OF A B vars] dom by (simp add: iA_def iB_def key_def)
  have mid: "consolidate_recursively [iA, iB] [[], vars] (Suc (Suc 0)) (Suc 0) [fst a] (snd a) =
      Inr (map (\<lambda>b. [fst a, fst b]) (filter (\<lambda>b. key (snd b) = key (snd a)) B))"
    if "a \<in> set A" for a
  proof -
    from that have "a \<in> set A \<union> set B" by simp
    from dom[rule_format, OF this] have "fset_of_list vars |\<subseteq>| fmdom (snd a)" .
    then have ev: "extract_values (snd a) ([[], vars] ! Suc 0) = Inr (key (snd a))"
      using extract_values_Inr[of vars "snd a"] by (simp add: key_def)
    have "consolidate_recursively [iA, iB] [[], vars] (Suc (Suc 0)) (Suc 0) [fst a] (snd a) =
        for_each (\<lambda>(item, position_bindings).
                 consolidate_recursively [iA, iB] [[], vars] (Suc (Suc 0)) (Suc (Suc 0))
                   ([fst a] @ [item]) (snd a ++\<^sub>f position_bindings))
              (([iA, iB] ! Suc 0) (key (snd a)))"
      by (rule consolidate_recursively_step[OF _ _ _ ev]) simp_all
    also have "\<dots> = for_each (\<lambda>b. Inr [[fst a, fst b]]) (([iA, iB] ! Suc 0) (key (snd a)))"
      by (rule for_each_cong) (simp add: split_def consolidate_recursively_last)
    also have "\<dots> = Inr (map (\<lambda>b. [fst a, fst b]) (filter (\<lambda>b. key (snd b) = key (snd a)) B))"
      by (simp add: for_each_pure iB_def concat_map_singleton)
    finally show ?thesis .
  qed
  have ev0: "extract_values fmempty ([[], vars] ! 0) = Inr []" by simp
  have iA0: "([iA, iB] ! 0) [] = A" by (simp add: iA_def)
  have "consolidate_recursively [iA, iB] [[], vars] (Suc (Suc 0)) 0 [] fmempty =
      for_each (\<lambda>(item, position_bindings).
                 consolidate_recursively [iA, iB] [[], vars] (Suc (Suc 0)) (Suc 0)
                   ([] @ [item]) (fmempty ++\<^sub>f position_bindings))
              (([iA, iB] ! 0) [])"
    by (rule consolidate_recursively_step[OF _ _ _ ev0]) simp_all
  also have "\<dots> = for_each (\<lambda>a. Inr (map (\<lambda>b. [fst a, fst b]) (filter (\<lambda>b. key (snd b) = key (snd a)) B))) (([iA, iB] ! 0) [])"
    unfolding iA0 by (rule for_each_cong) (simp add: split_def mid)
  also have "\<dots> = Inr (concat (map (\<lambda>a. map (\<lambda>b. [fst a, fst b]) (filter (\<lambda>b. key (snd b) = key (snd a)) B)) A))"
    unfolding iA0 by (simp add: for_each_pure)
  finally have cr: "consolidate_recursively [iA, iB] [[], vars] (Suc (Suc 0)) 0 [] fmempty =
      Inr (concat (map (\<lambda>a. map (\<lambda>b. [fst a, fst b]) (filter (\<lambda>b. key (snd b) = key (snd a)) B)) A))" .
  have nonempty: "list_all (\<lambda>position_results. position_results \<noteq> []) [A, B]"
    using A B by simp
  show ?thesis
    unfolding consolidate_results_def
    by (simp add: nonempty ip cr[unfolded key_def] del: index_positions.simps list.pred_inject)
qed


lemma sorted_list_of_fset_single: "sorted_list_of_fset {|V|} = [V]"
  by (simp add: sorted_list_of_fset.rep_eq)

lemma map_filter_concat:
  "map f (filter P xs) = concat (map (\<lambda>x. if P x then [f x] else []) xs)"
  by (induction xs) simp_all

lemma consolidate_results_with_empty:
  "[] \<in> set results \<Longrightarrow> consolidate_results results = Inr []"
  by (auto simp: consolidate_results_def list_all_iff)

text \<open>
  Claim C10. Called with no result sequence at all, the join returns the sequence whose
  only element is the empty tuple.
\<close>

theorem consolidate_results_no_inputs: "consolidate_results [] = Inr [[]]"
  by (simp add: consolidate_results_def consolidate_recursively_last)

text \<open>
  Claim C4. When one of the input sequences is empty the join returns the empty sequence,
  whatever the other sequences hold (also when their bindings would make it raise).
\<close>

theorem consolidate_results_empty_input:
  assumes "[] \<in> set results"
  shows "consolidate_results results = Inr []"
  using assms by (auto simp: consolidate_results_def list_all_iff)

theorem consolidate_results_empty_input_witness:
  "consolidate_results
     [[(lit ''a'', fmupd (lit ''N'') 0 fmempty), (lit ''b'', fmempty)], [],
      [(lit ''c'', fmupd (lit ''N'') 5 fmempty)]] = Inr []"
  by (rule consolidate_results_empty_input) simp

text \<open>
  Claim C2. When no binding environment of \<open>A\<close> shares a variable with one of \<open>B\<close>, the
  join of \<open>A\<close> and \<open>B\<close> is the full cartesian product of their terminal values, \<open>A\<close> in the
  outer loop and \<open>B\<close> in the inner one. (It holds for empty sequences too: then both sides
  are empty.)
\<close>

theorem consolidate_results_disjoint_product:
  assumes "\<forall>a \<in> set A. \<forall>b \<in> set B. fmdom (snd a) |\<inter>| fmdom (snd b) = {||}"
  shows "consolidate_results [A, B] = Inr [[x, y]. (x, ba) \<leftarrow> A, (y, bb) \<leftarrow> B]"
proof (cases "A = [] \<or> B = []")
  case True
  then have "[] \<in> set [A, B]" by auto
  then have "consolidate_results [A, B] = Inr []" by (rule consolidate_results_with_empty)
  moreover have "[[x, y]. (x, ba) \<leftarrow> A, (y, bb) \<leftarrow> B] = []"
    using True by (auto simp: split_def)
  ultimately show ?thesis by simp
next
  case False
  then have A: "A \<noteq> []" and B: "B \<noteq> []" by simp_all
  then have "hd A \<in> set A" and "hd B \<in> set B" by simp_all
  with assms have "fmdom (snd (hd A)) |\<inter>| fmdom (snd (hd B)) = {||}" by blast
  then have vars: "[] = sorted_list_of_fset (fmdom (snd (hd A)) |\<inter>| fmdom (snd (hd B)))"
    by (simp add: sorted_list_of_fset_empty)
  have "consolidate_results [A, B] =
     Inr (concat (map (\<lambda>a. map (\<lambda>b. [fst a, fst b])
            (filter (\<lambda>b. map (\<lambda>v. the (fmlookup (snd b) v)) [] = map (\<lambda>v. the (fmlookup (snd a) v)) []) B)) A))"
    by (rule consolidate_two[OF A B vars]) simp
  then show ?thesis by (simp add: split_def concat_map_singleton)
qed

theorem consolidate_results_disjoint_product_witness:
  "fmdom (fmupd (lit ''N'') (0::int) fmempty) |\<inter>| fmdom (fmupd (lit ''M'') (0::int) fmempty) = {||}
   \<and> consolidate_results
        [[(lit ''a'', fmupd (lit ''N'') 0 fmempty), (lit ''b'', fmupd (lit ''N'') 1 fmempty)],
         [(lit ''x'', fmupd (lit ''M'') 0 fmempty), (lit ''y'', fmupd (lit ''M'') 1 fmempty)]]
      = Inr [[lit ''a'', lit ''x''], [lit ''a'', lit ''y''], [lit ''b'', lit ''x''], [lit ''b'', lit ''y'']]"
proof -
  have h: "\<forall>a \<in> set [(lit ''a'', fmupd (lit ''N'') (0::int) fmempty), (lit ''b'', fmupd (lit ''N'') 1 fmempty)].
           \<forall>b \<in> set [(lit ''x'', fmupd (lit ''M'') (0::int) fmempty), (lit ''y'', fmupd (lit ''M'') 1 fmempty)].
             fmdom (snd a) |\<inter>| fmdom (snd b) = {||}"
    by code_simp
  show ?thesis
    using h consolidate_results_disjoint_product [OF h] by (simp add: lit_def)
qed

text \<open>
  When \<open>V\<close> is the only variable the binding environments of \<open>A\<close> and of \<open>B\<close> share, the
  join returns exactly the pairs whose two environments bind \<open>V\<close> to the same index.
\<close>

lemma consolidate_results_only_shared_variable:
  assumes "\<forall>a \<in> set A. \<forall>b \<in> set B. fmdom (snd a) |\<inter>| fmdom (snd b) = {|V|}"
  shows "consolidate_results [A, B] =
     Inr [[x, y]. (x, ba) \<leftarrow> A, (y, bb) \<leftarrow> B, fmlookup ba V = fmlookup bb V]"
proof (cases "A = [] \<or> B = []")
  case True
  then have "[] \<in> set [A, B]" by auto
  then have "consolidate_results [A, B] = Inr []" by (rule consolidate_results_with_empty)
  moreover have "[[x, y]. (x, ba) \<leftarrow> A, (y, bb) \<leftarrow> B, fmlookup ba V = fmlookup bb V] = []"
    using True by (auto simp: split_def)
  ultimately show ?thesis by simp
next
  case False
  then have A: "A \<noteq> []" and B: "B \<noteq> []" by simp_all
  then have hA: "hd A \<in> set A" and hB: "hd B \<in> set B" by simp_all
  with assms have "fmdom (snd (hd A)) |\<inter>| fmdom (snd (hd B)) = {|V|}" by blast
  then have vars: "[V] = sorted_list_of_fset (fmdom (snd (hd A)) |\<inter>| fmdom (snd (hd B)))"
    by (simp add: sorted_list_of_fset_single)
  have inA: "V |\<in>| fmdom (snd a)" if "a \<in> set A" for a
  proof -
    from assms that hB have "fmdom (snd a) |\<inter>| fmdom (snd (hd B)) = {|V|}" by blast
    then show ?thesis by blast
  qed
  have inB: "V |\<in>| fmdom (snd b)" if "b \<in> set B" for b
  proof -
    from assms that hA have "fmdom (snd (hd A)) |\<inter>| fmdom (snd b) = {|V|}" by blast
    then show ?thesis by blast
  qed
  have eq: "(the (fmlookup (snd b) V) = the (fmlookup (snd a) V)) = (fmlookup (snd a) V = fmlookup (snd b) V)"
    if "a \<in> set A" "b \<in> set B" for a b
  proof -
    from inA[OF that(1)] obtain i where "fmlookup (snd a) V = Some i" by (auto elim: fmdomE)
    moreover from inB[OF that(2)] obtain j where "fmlookup (snd b) V = Some j" by (auto elim: fmdomE)
    ultimately show ?thesis by auto
  qed
  have "consolidate_results [A, B] =
     Inr (concat (map (\<lambda>a. map (\<lambda>b. [fst a, fst b])
            (filter (\<lambda>b. map (\<lambda>v. the (fmlookup (snd b) v)) [V] = map (\<lambda>v. the (fmlookup (snd a) v)) [V]) B)) A))"
    by (rule consolidate_two[OF A B vars]) (use inA inB in auto)
  also have "concat (map (\<lambda>a. map (\<lambda>b. [fst a, fst b])
            (filter (\<lambda>b. map (\<lambda>v. the (fmlookup (snd b) v)) [V] = map (\<lambda>v. the (fmlookup (snd a) v)) [V]) B)) A)
     = [[x, y]. (x, ba) \<leftarrow> A, (y, bb) \<leftarrow> B, fmlookup ba V = fmlookup bb V]"
  proof -
    have "map (\<lambda>b. [fst a, fst b])
            (filter (\<lambda>b. map (\<lambda>v. the (fmlookup (snd b) v)) [V] = map (\<lambda>v. the (fmlookup (snd a) v)) [V]) B)
        = concat (map (\<lambda>(y, bb). if fmlookup (snd a) V = fmlookup bb V then [[fst a, y]] else []) B)"
      if a: "a \<in> set A" for a
    proof -
      have "filter (\<lambda>b. map (\<lambda>v. the (fmlookup (snd b) v)) [V] = map (\<lambda>v. the (fmlookup (snd a) v)) [V]) B
          = filter (\<lambda>b. fmlookup (snd a) V = fmlookup (snd b) V) B"
        by (rule filter_cong) (use eq[OF a] in auto)
      then show ?thesis
        by (simp add: split_def map_filter_concat)
    qed
    then show ?thesis
      by (auto simp: split_def intro!: arg_cong[where f=concat] map_cong)
  qed
  finally show ?thesis .
qed

text \<open>
  Claim C1, as the code has it. The index of a position is keyed by all the variables the
  position shares with the earlier ones, not by one of them. For two sequences \<open>A\<close> and
  \<open>B\<close>, each with all its binding environments binding one set of variables (as the
  results of one pattern do), the join returns exactly the pairs of a terminal value of \<open>A\<close>
  and one of \<open>B\<close>, \<open>A\<close> in the outer loop, whose two environments agree on every variable
  the two sets share. So a pair that disagrees on a shared variable \<open>V\<close> is never emitted,
  and a pair that agrees on \<open>V\<close> is emitted only when it agrees on the other shared
  variables too.
\<close>

theorem consolidate_results_shared_variables:
  assumes KA: "\<forall>a \<in> set A. fmdom (snd a) = KA" and KB: "\<forall>b \<in> set B. fmdom (snd b) = KB"
  shows "consolidate_results [A, B] =
     Inr [[x, y]. (x, ba) \<leftarrow> A, (y, bb) \<leftarrow> B,
                  \<forall>v \<in> fset (KA |\<inter>| KB). fmlookup ba v = fmlookup bb v]"
proof (cases "A = [] \<or> B = []")
  case True
  then have "[] \<in> set [A, B]" by auto
  then have "consolidate_results [A, B] = Inr []" by (rule consolidate_results_with_empty)
  moreover have "[[x, y]. (x, ba) \<leftarrow> A, (y, bb) \<leftarrow> B,
                  \<forall>v \<in> fset (KA |\<inter>| KB). fmlookup ba v = fmlookup bb v] = []"
    using True by (auto simp: split_def)
  ultimately show ?thesis by simp
next
  case False
  then have A: "A \<noteq> []" and B: "B \<noteq> []" by simp_all
  then have hA: "hd A \<in> set A" and hB: "hd B \<in> set B" by simp_all
  define vars where "vars = sorted_list_of_fset (KA |\<inter>| KB)"
  have sv: "set vars = fset (KA |\<inter>| KB)" by (simp add: vars_def)
  have vars: "vars = sorted_list_of_fset (fmdom (snd (hd A)) |\<inter>| fmdom (snd (hd B)))"
    using KA KB hA hB by (simp add: vars_def)
  have dom: "\<forall>r \<in> set A \<union> set B. fset_of_list vars |\<subseteq>| fmdom (snd r)"
    using KA KB by (auto simp: vars_def)
  have eq: "(map (\<lambda>v. the (fmlookup (snd b) v)) vars = map (\<lambda>v. the (fmlookup (snd a) v)) vars)
          = (\<forall>v \<in> fset (KA |\<inter>| KB). fmlookup (snd a) v = fmlookup (snd b) v)"
    if a: "a \<in> set A" and b: "b \<in> set B" for a b
  proof -
    have "(the (fmlookup (snd b) v) = the (fmlookup (snd a) v)) = (fmlookup (snd a) v = fmlookup (snd b) v)"
      if "v \<in> fset (KA |\<inter>| KB)" for v
    proof -
      from that KA a have "v |\<in>| fmdom (snd a)" by auto
      then obtain i where "fmlookup (snd a) v = Some i" by (auto elim: fmdomE)
      moreover from that KB b have "v |\<in>| fmdom (snd b)" by auto
      then obtain j where "fmlookup (snd b) v = Some j" by (auto elim: fmdomE)
      ultimately show ?thesis by auto
    qed
    then show ?thesis by (auto simp: map_eq_conv sv)
  qed
  have "consolidate_results [A, B] =
     Inr (concat (map (\<lambda>a. map (\<lambda>b. [fst a, fst b])
            (filter (\<lambda>b. map (\<lambda>v. the (fmlookup (snd b) v)) vars = map (\<lambda>v. the (fmlookup (snd a) v)) vars) B)) A))"
    by (rule consolidate_two[OF A B vars dom])
  also have "concat (map (\<lambda>a. map (\<lambda>b. [fst a, fst b])
            (filter (\<lambda>b. map (\<lambda>v. the (fmlookup (snd b) v)) vars = map (\<lambda>v. the (fmlookup (snd a) v)) vars) B)) A)
     = [[x, y]. (x, ba) \<leftarrow> A, (y, bb) \<leftarrow> B,
                \<forall>v \<in> fset (KA |\<inter>| KB). fmlookup ba v = fmlookup bb v]"
  proof -
    have "map (\<lambda>b. [fst a, fst b])
            (filter (\<lambda>b. map (\<lambda>v. the (fmlookup (snd b) v)) vars = map (\<lambda>v. the (fmlookup (snd a) v)) vars) B)
        = concat (map (\<lambda>(y, bb). if \<forall>v \<in> fset (KA |\<inter>| KB). fmlookup (snd a) v = fmlookup bb v
                                  then [[fst a, y]] else []) B)"
      if a: "a \<in> set A" for a
    proof -
      have "filter (\<lambda>b. map (\<lambda>v. the (fmlookup (snd b) v)) vars = map (\<lambda>v. the (fmlookup (snd a) v)) vars) B
          = filter (\<lambda>b. \<forall>v \<in> fset (KA |\<inter>| KB). fmlookup (snd a) v = fmlookup (snd b) v) B"
        by (rule filter_cong) (use eq[OF a] in auto)
      then show ?thesis
        by (simp add: split_def map_filter_concat)
    qed
    then show ?thesis
      by (auto simp: split_def intro!: arg_cong[where f=concat] map_cong)
  qed
  finally show ?thesis .
qed

theorem consolidate_results_shared_variables_witness:
  "consolidate_results
     [[(lit ''t0'', fmupd (lit ''M'') 0 (fmupd (lit ''N'') 0 fmempty)),
       (lit ''t1'', fmupd (lit ''M'') 1 (fmupd (lit ''N'') 0 fmempty))],
      [(lit ''r0'', fmupd (lit ''M'') 0 (fmupd (lit ''N'') 0 fmempty)),
       (lit ''r1'', fmupd (lit ''M'') 1 (fmupd (lit ''N'') 0 fmempty))]]
   = Inr [[lit ''t0'', lit ''r0''], [lit ''t1'', lit ''r1'']]"
proof -
  let ?A = "[(lit ''t0'', fmupd (lit ''M'') 0 (fmupd (lit ''N'') (0::int) fmempty)),
             (lit ''t1'', fmupd (lit ''M'') 1 (fmupd (lit ''N'') 0 fmempty))]"
  let ?B = "[(lit ''r0'', fmupd (lit ''M'') 0 (fmupd (lit ''N'') (0::int) fmempty)),
             (lit ''r1'', fmupd (lit ''M'') 1 (fmupd (lit ''N'') 0 fmempty))]"
  have a: "\<forall>a \<in> set ?A. fmdom (snd a) = {|lit ''M'', lit ''N''|}"
    and b: "\<forall>b \<in> set ?B. fmdom (snd b) = {|lit ''M'', lit ''N''|}"
    by auto
  have c: "[[x, y]. (x, ba) \<leftarrow> ?A, (y, bb) \<leftarrow> ?B,
             \<forall>v \<in> fset ({|lit ''M'', lit ''N''|} |\<inter>| {|lit ''M'', lit ''N''|}). fmlookup ba v = fmlookup bb v]
        = [[lit ''t0'', lit ''r0''], [lit ''t1'', lit ''r1'']]"
    by (simp add: lit_def)
  from consolidate_results_shared_variables [OF a b] show ?thesis
    unfolding c .
qed

text \<open>
  The claim as the specification words it (exactly the pairs that agree on \<open>V\<close>) fails
  when the sequences share a second variable: here both environments bind \<open>V\<close> to 0, they
  differ on \<open>W\<close>, and the join returns nothing.
\<close>

theorem consolidate_results_shared_variable_counterexample:
  "fmlookup (fmupd (lit ''W'') 0 (fmupd (lit ''V'') (0::int) fmempty)) (lit ''V'')
     = fmlookup (fmupd (lit ''W'') 1 (fmupd (lit ''V'') (0::int) fmempty)) (lit ''V'')
   \<and> consolidate_results
        [[(lit ''a'', fmupd (lit ''W'') 0 (fmupd (lit ''V'') 0 fmempty))],
         [(lit ''b'', fmupd (lit ''W'') 1 (fmupd (lit ''V'') 0 fmempty))]]
      = Inr []"
  by code_simp

subsection \<open>Every consolidated tuple has one component per position\<close>

lemma for_each_Inr_elem:
  "for_each f xs = Inr ts \<Longrightarrow> t \<in> set ts \<Longrightarrow> \<exists>x \<in> set xs. \<exists>rs. f x = Inr rs \<and> t \<in> set rs"
proof (induction xs arbitrary: ts)
  case Nil
  then show ?case by simp
next
  case (Cons x xs)
  then show ?case by (auto split: sum.splits)
qed

lemma consolidate_recursively_length:
  "consolidate_recursively indices intersections n position current bindings = Inr ts \<Longrightarrow>
   position \<le> n \<Longrightarrow> t \<in> set ts \<Longrightarrow> length t = length current + (n - position)"
proof (induction indices intersections n position current bindings arbitrary: ts t
       rule: consolidate_recursively.induct)
  case (1 indices intersections n position current bindings)
  show ?case
  proof (cases "position = n")
    case True
    with "1.prems" show ?thesis
      by (auto simp: consolidate_recursively.simps)
  next
    case False
    from "1.prems"(1) False have ok: "\<not> (length indices \<le> position \<or> length intersections \<le> position)"
      by (subst (asm) consolidate_recursively.simps) (auto split: if_splits)
    from "1.prems"(1) False ok obtain vs where
      vs: "extract_values bindings (intersections ! position) = Inr vs"
      and fe: "for_each (\<lambda>(item, position_bindings).
                 consolidate_recursively indices intersections n (Suc position)
                   (current @ [item]) (bindings ++\<^sub>f position_bindings))
              ((indices ! position) vs) = Inr ts"
      by (subst (asm) consolidate_recursively.simps) (auto split: sum.splits)
    from for_each_Inr_elem[OF fe "1.prems"(3)] obtain x rs where
      x: "consolidate_recursively indices intersections n (Suc position)
            (current @ [fst x]) (bindings ++\<^sub>f snd x) = Inr rs" and t: "t \<in> set rs"
      by (auto simp: split_def)
    from False "1.prems"(2) have le: "Suc position \<le> n" by simp
    have "length t = length (current @ [fst x]) + (n - Suc position)"
      by (rule "1.IH"[OF False ok vs x le t])
    with le show ?thesis by simp
  qed
qed

lemma consolidate_results_length:
  assumes "consolidate_results results = Inr consolidated" and "t \<in> set consolidated"
  shows "length t = length results"
proof (cases "list_all (\<lambda>position_results. position_results \<noteq> []) results")
  case False
  with assms show ?thesis by (simp add: consolidate_results_def)
next
  case True
  with assms obtain indices intersections where
    "consolidate_recursively indices intersections (length results) 0 [] fmempty = Inr consolidated"
    by (auto simp: consolidate_results_def split: sum.splits)
  from consolidate_recursively_length[OF this _ assms(2)] show ?thesis by simp
qed

section \<open>Properties of the extractor\<close>

lemma and_then_Inr:
  "and_then m f = (Inr y, w) \<longleftrightarrow> (\<exists>x w1 w2. m = (Inr x, w1) \<and> f x = (Inr y, w2) \<and> w = w1 @ w2)"
  by (cases m) (auto simp: and_then_def split: sum.splits prod.splits)

lemma and_then_Inl:
  "and_then m f = (Inl e, w) \<longleftrightarrow>
     m = (Inl e, w) \<or> (\<exists>x w1 w2. m = (Inr x, w1) \<and> f x = (Inl e, w2) \<and> w = w1 @ w2)"
  by (cases m) (auto simp: and_then_def split: sum.splits prod.splits)

lemma search_conditions_length:
  "search_conditions U data conditions = (Inr condition_results, w) \<Longrightarrow>
   length condition_results = length conditions"
proof (induction conditions arbitrary: condition_results w)
  case Nil
  then show ?case by simp
next
  case (Cons c conditions)
  then show ?case by (cases c) (auto simp: and_then_Inr)
qed

lemma search_positions_length:
  assumes "search_positions U (lp, wp, rp, conditions) data = (Inr results, w)"
  shows "length results = length conditions + 3"
  using assms search_conditions_length
  by (auto simp: search_positions_def and_then_Inr)

lemma collect_error:
  "(\<And>x e w. f x = (Inl e, w) \<Longrightarrow> e = AssertionError) \<Longrightarrow>
   collect f xs = (Inl e, w) \<Longrightarrow> e = AssertionError"
proof (induction xs arbitrary: w)
  case Nil
  then show ?case by simp
next
  case (Cons x xs)
  show ?case
  proof (cases "f x")
    case (Pair r w1)
    show ?thesis
    proof (cases r)
      case (Inl e1)
      with Pair Cons.prems(2) have "e1 = e" by simp
      with Pair Inl Cons.prems(1) show ?thesis by blast
    next
      case (Inr rs)
      with Pair Cons.prems(2) obtain w2 where "collect f xs = (Inl e, w2)"
        by (auto split: prod.splits sum.splits)
      with Cons.IH Cons.prems(1) show ?thesis by blast
    qed
  qed
qed

lemma search_recursively_error:
  "search_recursively U sil path node bnd = (Inl e, w) \<Longrightarrow> e = AssertionError"
proof (induction path arbitrary: node bnd w e)
  case Nil
  then show ?case by (cases node) simp_all
next
  case (Cons key path)
  show ?case
  proof (cases "is_variable_name U key")
    case var: True
    show ?thesis
    proof (cases "key |\<in>| fmdom bnd")
      case True
      with var Cons.prems show ?thesis by simp
    next
      case False
      show ?thesis
      proof (cases node)
        case (JList items)
        with var False Cons.prems have c: "collect (\<lambda>(index, item). search_recursively U sil path item (fmupd key index bnd)) (enumerate_py items) = (Inl e, w)"
          by simp
        show ?thesis
        proof (rule collect_error[OF _ c])
          fix x :: "int \<times> json" and e' w'
          assume "(case x of (index, item) \<Rightarrow> search_recursively U sil path item (fmupd key index bnd)) = (Inl e', w')"
          then show "e' = AssertionError"
            using Cons.IH[of "snd x" "fmupd key (fst x) bnd" e' w'] by (simp add: split_def)
        qed
      qed (use var False Cons.prems in simp_all)
    qed
  next
    case False
    show ?thesis
    proof (cases node)
      case (JDict d)
      show ?thesis
      proof (cases "fmlookup d key")
        case None
        with False JDict Cons.prems show ?thesis by simp
      next
        case (Some child)
        with False JDict Cons.prems Cons.IH[of child bnd e w] show ?thesis by simp
      qed
    qed (use False Cons.prems in simp_all)
  qed
qed

lemma search_values_error:
  "search_values U sil pattern data = (Inl e, w) \<Longrightarrow> e = AssertionError"
  unfolding search_values_def by (rule search_recursively_error)

lemma search_conditions_error:
  "search_conditions U data conditions = (Inl e, w) \<Longrightarrow> e = AssertionError"
proof (induction conditions arbitrary: w)
  case Nil
  then show ?case by simp
next
  case (Cons c conditions)
  then show ?case
    by (cases c) (auto simp: and_then_Inl dest: search_values_error)
qed

lemma search_conditions_Inr:
  "search_conditions U data conditions = (Inr condition_results, w) \<Longrightarrow>
   condition_results = map (filtered_condition U data) conditions"
proof (induction conditions arbitrary: condition_results w)
  case Nil
  then show ?case by simp
next
  case (Cons c conditions)
  then show ?case
    by (cases c) (auto simp: and_then_Inr filtered_condition_def results_of_def)
qed

lemma search_positions_Inl:
  "search_positions U patterns data = (Inl e, w) \<Longrightarrow> e = AssertionError"
  by (cases patterns)
     (auto simp: search_positions_def and_then_Inl dest: search_values_error search_conditions_error)

lemma search_positions_Inr:
  "search_positions U (lp, wp, rp, conditions) data = (Inr results, w) \<Longrightarrow>
   \<exists>languages words romanizations.
     results = map (filtered_condition U data) conditions @ [languages, words, romanizations]"
  by (auto simp: search_positions_def and_then_Inr dest: search_conditions_Inr)

lemma is_valid_entry_iff: "is_valid_entry U entry is_ipa = passes_validation U is_ipa entry"
  by (auto simp: is_valid_entry_def passes_validation_def MAX_NON_COMBINING_LENGTH_def list_all_iff)

lemma unpack_last_three_Inr:
  "3 \<le> length consolidated \<Longrightarrow> unpack_last_three consolidated = Inr (last_three consolidated)"
proof -
  assume l: "3 \<le> length consolidated"
  then obtain r xs1 where r: "rev consolidated = r # xs1" and l1: "2 \<le> length xs1"
    by (cases "rev consolidated") (auto dest!: arg_cong[where f=length])
  from l1 obtain w xs2 where w: "xs1 = w # xs2" and l2: "1 \<le> length xs2"
    by (cases xs1) auto
  from l2 obtain l' rest where l': "xs2 = l' # rest"
    by (cases xs2) auto
  from r w l' have rv: "rev consolidated = r # w # l' # rest" by simp
  then have c: "consolidated = rev rest @ [l', w, r]"
    by (simp add: rev_swap flip: rev_rev_ident)
  show ?thesis
    unfolding unpack_last_three_def rv by (simp add: c last_three_def nth_append)
qed

lemma select_entries_Inr:
  "\<forall>t \<in> set consolidated. 3 \<le> length t \<Longrightarrow>
   select_entries U is_ipa consolidated =
     Inr (filter (passes_validation U is_ipa) (map (\<lambda>t. normalized_entry U (last_three t)) consolidated))"
proof (induction consolidated)
  case Nil
  show ?case by simp
next
  case (Cons t ts)
  then have "unpack_last_three t = Inr (last_three t)" by (simp add: unpack_last_three_Inr)
  with Cons show ?case
    by (cases "last_three t") (simp add: normalized_entry_def is_valid_entry_iff)
qed


lemma search_conditions_no_abort:
  "\<forall>condition \<in> set conditions. \<not> has_repeated_variable U (fst condition) \<Longrightarrow>
   \<exists>condition_results w. search_conditions U data conditions = (Inr condition_results, w)"
proof (induction conditions)
  case Nil
  show ?case by simp
next
  case (Cons c conditions)
  obtain pattern required where c: "c = (pattern, required)" by (cases c) auto
  from Cons.prems c have "\<not> has_repeated_variable U pattern" by simp
  from search_values_no_abort[OF this, of False data]
  obtain rs w1 where "search_values U False pattern data = (Inr rs, w1)" by blast
  moreover from Cons obtain crs w2 where "search_conditions U data conditions = (Inr crs, w2)"
    by auto
  ultimately show ?case by (simp add: c and_then_def)
qed

lemma search_positions_no_abort:
  assumes "\<not> list_ex (has_repeated_variable U) (lp # wp # rp # map fst conditions)"
  shows "\<exists>results w. search_positions U (lp, wp, rp, conditions) data = (Inr results, w)"
proof -
  from assms have l: "\<not> has_repeated_variable U lp" and w: "\<not> has_repeated_variable U wp"
    and r: "\<not> has_repeated_variable U rp"
    and c: "\<forall>condition \<in> set conditions. \<not> has_repeated_variable U (fst condition)"
    by (auto simp: list_ex_iff)
  from search_conditions_no_abort[OF c, of data] obtain crs w0 where
    "search_conditions U data conditions = (Inr crs, w0)" by blast
  moreover from search_values_no_abort[OF l, of True data] obtain ls w1 where
    "search_values U True lp data = (Inr ls, w1)" by blast
  moreover from search_values_no_abort[OF w, of False data] obtain ws w2 where
    "search_values U False wp data = (Inr ws, w2)" by blast
  moreover from search_values_no_abort[OF r, of False data] obtain rs w3 where
    "search_values U False rp data = (Inr rs, w3)" by blast
  ultimately show ?thesis by (simp add: search_positions_def and_then_def)
qed

subsection \<open>The join does not fail on the results of pattern evaluation\<close>

lemma collect_Inr_elem:
  "collect f xs = (Inr rs, w) \<Longrightarrow> r \<in> set rs \<Longrightarrow>
   \<exists>x \<in> set xs. \<exists>rs' w'. f x = (Inr rs', w') \<and> r \<in> set rs'"
proof (induction xs arbitrary: rs w)
  case Nil
  then show ?case by simp
next
  case (Cons x xs)
  then show ?case by (auto split: sum.splits prod.splits)
qed

lemma search_recursively_dom:
  "search_recursively U sil path node bnd = (Inr rs, w) \<Longrightarrow> r \<in> set rs \<Longrightarrow>
   fmdom (snd r) = fmdom bnd |\<union>| fset_of_list (filter (is_variable_name U) path)"
proof (induction path arbitrary: node bnd rs w)
  case Nil
  then show ?case by (cases node) (auto split: if_splits)
next
  case (Cons key path)
  show ?case
  proof (cases "is_variable_name U key")
    case var: True
    show ?thesis
    proof (cases "key |\<in>| fmdom bnd")
      case True
      with var Cons.prems show ?thesis by simp
    next
      case False
      show ?thesis
      proof (cases node)
        case (JList items)
        with var False Cons.prems(1) have c: "collect (\<lambda>(index, item). search_recursively U sil path item (fmupd key index bnd)) (enumerate_py items) = (Inr rs, w)"
          by simp
        from collect_Inr_elem[OF c Cons.prems(2)] obtain x rs' w' where
          "search_recursively U sil path (snd x) (fmupd key (fst x) bnd) = (Inr rs', w')" and "r \<in> set rs'"
          by (auto simp: split_def)
        from Cons.IH[OF this] var show ?thesis by auto
      qed (use var False Cons.prems in simp_all)
    qed
  next
    case False
    show ?thesis
    proof (cases node)
      case (JDict d)
      show ?thesis
      proof (cases "fmlookup d key")
        case None
        with False JDict Cons.prems show ?thesis by simp
      next
        case (Some child)
        with False JDict Cons.prems have "search_recursively U sil path child bnd = (Inr rs, w)" by simp
        from Cons.IH[OF this Cons.prems(2)] False show ?thesis by simp
      qed
    qed (use False Cons.prems in simp_all)
  qed
qed

lemma search_values_uniform:
  assumes "search_values U sil pattern data = (Inr rs, w)"
  shows "uniform rs" and "uniform (filter P rs)"
proof -
  have d: "fmdom (snd r) = fset_of_list (filter (is_variable_name U) (str_split SEARCH_PATTERN_DELIMITER pattern))"
    if "r \<in> set rs" for r
    using search_recursively_dom[OF assms[unfolded search_values_def] that] by simp
  show "uniform rs"
  proof (cases rs)
    case Nil
    then show ?thesis by (simp add: uniform_def)
  next
    case (Cons a list)
    then have "hd rs \<in> set rs" by simp
    with d show ?thesis by (auto simp: uniform_def position_variables_def list_all_iff)
  qed
  show "uniform (filter P rs)"
  proof (cases "filter P rs")
    case Nil
    then show ?thesis by (simp add: uniform_def)
  next
    case (Cons a list)
    then have "hd (filter P rs) \<in> set (filter P rs)" by simp
    then have "hd (filter P rs) \<in> set rs" by simp
    with d show ?thesis by (auto simp: uniform_def position_variables_def list_all_iff)
  qed
qed

lemma index_positions_total:
  "list_all (\<lambda>rs. rs \<noteq> [] \<and> uniform rs) results \<Longrightarrow>
   \<exists>ids. index_positions results ids0 ints0 cum = Inr (ids0 @ ids, ints0 @ intersections_from cum results)
        \<and> length ids = length results
        \<and> (\<forall>i < length results. \<forall>vs. set ((ids ! i) vs) \<subseteq> set (results ! i))"
proof (induction results arbitrary: ids0 ints0 cum)
  case Nil
  show ?case by simp
next
  case (Cons rs results)
  let ?vars = "sorted_list_of_fset (cum |\<inter>| fmdom (snd (hd rs)))"
  from Cons.prems have ne: "rs \<noteq> []" and u: "uniform rs" by simp_all
  have "\<forall>r \<in> set rs. fset_of_list ?vars |\<subseteq>| fmdom (snd r)"
    using u by (auto simp: uniform_def position_variables_def list_all_iff)
  from index_results_ok[OF this, of "\<lambda>_. []"]
  have ir: "index_results ?vars rs (\<lambda>_. []) =
      Inr (\<lambda>vs. filter (\<lambda>r. map (\<lambda>v. the (fmlookup (snd r) v)) ?vars = vs) rs)"
    by simp
  from Cons.prems have "list_all (\<lambda>rs. rs \<noteq> [] \<and> uniform rs) results" by simp
  from Cons.IH[OF this, of "ids0 @ [\<lambda>vs. filter (\<lambda>r. map (\<lambda>v. the (fmlookup (snd r) v)) ?vars = vs) rs]"
      "ints0 @ [?vars]" "cum |\<union>| fmdom (snd (hd rs))"]
  obtain ids where
    ip: "index_positions results (ids0 @ [\<lambda>vs. filter (\<lambda>r. map (\<lambda>v. the (fmlookup (snd r) v)) ?vars = vs) rs])
          (ints0 @ [?vars]) (cum |\<union>| fmdom (snd (hd rs))) =
         Inr ((ids0 @ [\<lambda>vs. filter (\<lambda>r. map (\<lambda>v. the (fmlookup (snd r) v)) ?vars = vs) rs]) @ ids,
              (ints0 @ [?vars]) @ intersections_from (cum |\<union>| fmdom (snd (hd rs))) results)"
    and len: "length ids = length results"
    and sub: "\<forall>i < length results. \<forall>vs. set ((ids ! i) vs) \<subseteq> set (results ! i)"
    by blast
  let ?ids = "(\<lambda>vs. filter (\<lambda>r. map (\<lambda>v. the (fmlookup (snd r) v)) ?vars = vs) rs) # ids"
  have "index_positions (rs # results) ids0 ints0 cum =
      Inr (ids0 @ ?ids, ints0 @ intersections_from cum (rs # results))"
    unfolding index_positions_step[OF ne ir] ip by (simp add: position_variables_def)
  moreover have "length ?ids = length (rs # results)" using len by simp
  moreover have "\<forall>i < length (rs # results). \<forall>vs. set ((?ids ! i) vs) \<subseteq> set ((rs # results) ! i)"
  proof (intro allI impI)
    fix i vs assume "i < length (rs # results)"
    then show "set ((?ids ! i) vs) \<subseteq> set ((rs # results) ! i)"
      using sub by (cases i) auto
  qed
  ultimately show ?case by blast
qed

lemma intersections_from_length: "length (intersections_from cum results) = length results"
  by (induction results arbitrary: cum) simp_all

lemma intersections_from_nth:
  "i < length results \<Longrightarrow>
   intersections_from cum results ! i =
     sorted_list_of_fset (cumulative_after (take i results) cum |\<inter>| position_variables (results ! i))"
proof (induction results arbitrary: cum i)
  case Nil
  then show ?case by simp
next
  case (Cons rs results)
  then show ?case by (cases i) (simp_all add: cumulative_after_def)
qed

lemma cumulative_after_Suc:
  "i < length results \<Longrightarrow>
   cumulative_after (take (Suc i) results) cum =
     cumulative_after (take i results) cum |\<union>| position_variables (results ! i)"
  by (simp add: cumulative_after_def take_Suc_conv_app_nth)

lemma for_each_total:
  "(\<And>x. x \<in> set xs \<Longrightarrow> \<exists>rs. f x = Inr rs) \<Longrightarrow> \<exists>rs. for_each f xs = Inr rs"
proof (induction xs)
  case Nil
  show ?case by simp
next
  case (Cons x xs)
  from Cons.prems obtain rs where "f x = Inr rs" by auto
  moreover from Cons obtain rs' where "for_each f xs = Inr rs'" by auto
  ultimately show ?case by simp
qed

lemma consolidate_recursively_total:
  assumes u: "list_all (\<lambda>rs. rs \<noteq> [] \<and> uniform rs) results"
    and len: "length ids = length results"
    and sub: "\<forall>i < length results. \<forall>vs. set ((ids ! i) vs) \<subseteq> set (results ! i)"
  shows "position \<le> length results \<Longrightarrow>
     fmdom bindings = cumulative_after (take position results) {||} \<Longrightarrow>
     \<exists>ts. consolidate_recursively ids (intersections_from {||} results) (length results)
            position current bindings = Inr ts"
proof (induction "length results - position" arbitrary: position current bindings)
  case 0
  then have "position = length results" by simp
  then show ?case by (simp add: consolidate_recursively_last)
next
  case (Suc k)
  then have lt: "position < length results" by simp
  let ?ints = "intersections_from {||} results"
  have nth: "?ints ! position =
      sorted_list_of_fset (fmdom bindings |\<inter>| position_variables (results ! position))"
    using intersections_from_nth[OF lt, of "{||}"] Suc.prems(2) by simp
  have "fset_of_list (?ints ! position) |\<subseteq>| fmdom bindings"
    unfolding nth by simp
  from extract_values_Inr[OF this]
  have ev: "extract_values bindings (?ints ! position) =
      Inr (map (\<lambda>v. the (fmlookup bindings v)) (?ints ! position))" .
  have step: "consolidate_recursively ids ?ints (length results) position current bindings =
      for_each (\<lambda>(item, position_bindings).
                 consolidate_recursively ids ?ints (length results) (Suc position)
                   (current @ [item]) (bindings ++\<^sub>f position_bindings))
              ((ids ! position) (map (\<lambda>v. the (fmlookup bindings v)) (?ints ! position)))"
    by (rule consolidate_recursively_step[OF _ _ _ ev])
       (use lt len in \<open>simp_all add: intersections_from_length\<close>)
  have "\<exists>rs. for_each (\<lambda>(item, position_bindings).
                 consolidate_recursively ids ?ints (length results) (Suc position)
                   (current @ [item]) (bindings ++\<^sub>f position_bindings))
              ((ids ! position) (map (\<lambda>v. the (fmlookup bindings v)) (?ints ! position))) = Inr rs"
  proof (rule for_each_total)
    fix x assume "x \<in> set ((ids ! position) (map (\<lambda>v. the (fmlookup bindings v)) (?ints ! position)))"
    with sub lt have x: "x \<in> set (results ! position)" by blast
    from u lt have "uniform (results ! position)" by (simp add: list_all_length)
    with x have "fmdom (snd x) = position_variables (results ! position)"
      by (simp add: uniform_def list_all_iff)
    then have d: "fmdom (bindings ++\<^sub>f snd x) = cumulative_after (take (Suc position) results) {||}"
      using Suc.prems(2) cumulative_after_Suc[OF lt, of "{||}"] by simp
    from Suc.hyps(2) have k: "k = length results - Suc position" by simp
    from Suc.hyps(1)[OF k _ d, of "current @ [fst x]"] lt
    show "\<exists>rs. (case x of (item, position_bindings) \<Rightarrow>
                 consolidate_recursively ids ?ints (length results) (Suc position)
                   (current @ [item]) (bindings ++\<^sub>f position_bindings)) = Inr rs"
      by (simp add: split_def)
  qed
  with step show ?case by simp
qed

lemma consolidate_results_total:
  assumes "list_all uniform results"
  shows "\<exists>consolidated. consolidate_results results = Inr consolidated"
proof (cases "list_all (\<lambda>position_results. position_results \<noteq> []) results")
  case False
  then show ?thesis by (simp add: consolidate_results_def)
next
  case True
  with assms have u: "list_all (\<lambda>rs. rs \<noteq> [] \<and> uniform rs) results"
    by (simp add: list_all_iff)
  from index_positions_total[OF u, of "[]" "[]" "{||}"] obtain ids where
    ip: "index_positions results [] [] {||} = Inr (ids, intersections_from {||} results)"
    and len: "length ids = length results"
    and sub: "\<forall>i < length results. \<forall>vs. set ((ids ! i) vs) \<subseteq> set (results ! i)"
    by auto
  from consolidate_recursively_total[OF u len sub, of 0 fmempty "[]"]
  obtain ts where "consolidate_recursively ids (intersections_from {||} results) (length results) 0 [] fmempty = Inr ts"
    by (auto simp: cumulative_after_def)
  with True ip show ?thesis by (simp add: consolidate_results_def)
qed


lemma search_conditions_uniform:
  "search_conditions U data conditions = (Inr condition_results, w) \<Longrightarrow>
   list_all uniform condition_results"
proof (induction conditions arbitrary: condition_results w)
  case Nil
  then show ?case by simp
next
  case (Cons c conditions)
  obtain pattern required where c: "c = (pattern, required)" by (cases c) auto
  from Cons.prems obtain rs crs w1 w2 where
    sv: "search_values U False pattern data = (Inr rs, w1)"
    and sc: "search_conditions U data conditions = (Inr crs, w2)"
    and cr: "condition_results = filter (\<lambda>(v, bindings). v = required) rs # crs"
    unfolding c by (auto simp: and_then_Inr)
  from search_values_uniform(2)[OF sv] Cons.IH[OF sc] cr show ?case by simp
qed

lemma search_positions_uniform:
  assumes "search_positions U patterns data = (Inr results, w)"
  shows "list_all uniform results"
proof -
  obtain lp wp rp conditions where pats: "patterns = (lp, wp, rp, conditions)"
    by (cases patterns) auto
  from assms obtain crs ls ws rs w0 w1 w2 w3 where
    "search_conditions U data conditions = (Inr crs, w0)"
    "search_values U True lp data = (Inr ls, w1)"
    "search_values U False wp data = (Inr ws, w2)"
    "search_values U False rp data = (Inr rs, w3)"
    "results = crs @ [ls, ws, rs]"
    unfolding pats by (auto simp: search_positions_def and_then_Inr)
  with search_conditions_uniform search_values_uniform(1) show ?thesis
    by (simp add: list_all_iff)
qed

text \<open>
  Claim C9. The join is fed, for each equality condition, the results of the condition's
  pattern whose terminal value equals the required literal, in the order of the
  conditions. When one of these filtered sets is empty the group yields no entry for the
  document: \<open>search_triples\<close> returns the empty list, or it raises \<open>AssertionError\<close>, which
  it can only do when a pattern of the group repeats a variable name.
\<close>

theorem condition_filtering:
  "(\<forall>condition_results w. search_conditions U data conditions = (Inr condition_results, w) \<longrightarrow>
      condition_results = map (filtered_condition U data) conditions)
   \<and> ([] \<in> set (map (filtered_condition U data) conditions) \<longrightarrow>
        fst (search_triples U (lp, wp, rp, conditions) data is_ipa) = Inr []
      \<or> fst (search_triples U (lp, wp, rp, conditions) data is_ipa) = Inl AssertionError
        \<and> list_ex (has_repeated_variable U) (lp # wp # rp # map fst conditions))"
proof (intro conjI allI impI)
  fix condition_results w
  assume "search_conditions U data conditions = (Inr condition_results, w)"
  then show "condition_results = map (filtered_condition U data) conditions"
    by (rule search_conditions_Inr)
next
  assume empty: "[] \<in> set (map (filtered_condition U data) conditions)"
  obtain r w where sp: "search_positions U (lp, wp, rp, conditions) data = (r, w)"
    by (cases "search_positions U (lp, wp, rp, conditions) data") auto
  show "fst (search_triples U (lp, wp, rp, conditions) data is_ipa) = Inr []
      \<or> fst (search_triples U (lp, wp, rp, conditions) data is_ipa) = Inl AssertionError
        \<and> list_ex (has_repeated_variable U) (lp # wp # rp # map fst conditions)"
  proof (cases r)
    case (Inl e)
    with sp have "e = AssertionError" by (auto dest: search_positions_Inl)
    moreover from sp Inl search_positions_no_abort[of U lp wp rp conditions data]
    have "list_ex (has_repeated_variable U) (lp # wp # rp # map fst conditions)" by auto
    ultimately show ?thesis using sp Inl by (simp add: search_triples_def and_then_def)
  next
    case (Inr results)
    with sp search_positions_Inr obtain languages words romanizations where
      "results = map (filtered_condition U data) conditions @ [languages, words, romanizations]"
      by blast
    with empty have "[] \<in> set results" by auto
    then have "consolidate_results results = Inr []" by (rule consolidate_results_with_empty)
    with sp Inr show ?thesis by (simp add: search_triples_def and_then_def)
  qed
qed

theorem condition_filtering_witness:
  "[] \<in> set (map (filtered_condition ascii_tables canonical_form_document)
               [(lit ''forms/N/tags/T'', lit ''romanization'')])
   \<and> fst (search_triples ascii_tables romanization_form_pattern canonical_form_document False) = Inr []"
proof -
  have e: "[] \<in> set (map (filtered_condition ascii_tables canonical_form_document)
               [(lit ''forms/N/tags/T'', lit ''romanization'')])"
    by code_simp
  have n: "\<not> list_ex (has_repeated_variable ascii_tables)
             (lit ''lang_code'' # lit ''word'' # lit ''forms/N/form'' #
              map fst [(lit ''forms/N/tags/T'', lit ''romanization'')])"
    by code_simp
  from condition_filtering [of ascii_tables canonical_form_document
      "[(lit ''forms/N/tags/T'', lit ''romanization'')]" "lit ''lang_code''" "lit ''word''"
      "lit ''forms/N/form''" False] e n
  show ?thesis unfolding romanization_form_pattern_def by blast
qed

text \<open>
  Claim C8, as the code has it. The code normalises before it validates. For each
  consolidated tuple, with (language, word, pronunciation) its last three components, the
  candidate entry is (language, \<open>extra_normalize_word(normalize(word), language)\<close>,
  \<open>normalize(pronunciation)\<close>). The tuple is dropped unless the three components of the
  candidate are non-empty; for an extraction that is not for IPA it is also dropped when
  the candidate's word or pronunciation has more than 20 non-combining characters, or when
  every character of the candidate's word is a combining mark or matches \<open>[a-z -]\<close>
  without regard to case. For IPA only the non-emptiness of the candidate is checked. The
  entries come out in the order of the tuples. Whenever the patterns of the group have
  been evaluated without an exception (as they are for every group that repeats no
  variable name, lemma \<open>search_positions_no_abort\<close>), the join returns its tuples and the
  extraction its entries: neither the join nor the unpacking of the last three components
  can fail then.
\<close>

theorem search_triples_entries:
  assumes "search_positions U patterns data = (Inr results, w)"
  shows "\<exists>consolidated. consolidate_results results = Inr consolidated
     \<and> search_triples U patterns data is_ipa =
         (Inr (filter (passes_validation U is_ipa)
                (map (\<lambda>t. normalized_entry U (last_three t)) consolidated)), w)"
proof -
  from consolidate_results_total[OF search_positions_uniform[OF assms]]
  obtain consolidated where c: "consolidate_results results = Inr consolidated" by blast
  obtain lp wp rp conditions where pats: "patterns = (lp, wp, rp, conditions)"
    by (cases patterns) auto
  from assms have "length results = length conditions + 3"
    unfolding pats by (rule search_positions_length)
  with consolidate_results_length[OF c] have "\<forall>t \<in> set consolidated. 3 \<le> length t"
    by simp
  from select_entries_Inr[OF this] assms c show ?thesis
    by (simp add: search_triples_def and_then_def)
qed

theorem search_triples_entries_witness:
  "search_positions ascii_tables (lit ''lang_code'', lit ''word'', lit ''sounds/N/ipa'', []) cat_document =
     (Inr [[(lit ''en'', fmempty)], [(lit ''cat'', fmempty)], [(lit ''/kat/'', fmupd (lit ''N'') 0 fmempty)]], [])
   \<and> consolidate_results
        [[(lit ''en'', fmempty)], [(lit ''cat'', fmempty)], [(lit ''/kat/'', fmupd (lit ''N'') 0 fmempty)]]
      = Inr [[lit ''en'', lit ''cat'', lit ''/kat/'']]
   \<and> search_triples ascii_tables (lit ''lang_code'', lit ''word'', lit ''sounds/N/ipa'', []) cat_document True
      = (Inr [(lit ''en'', lit ''cat'', lit ''/kat/'')], [])"
proof -
  have p: "search_positions ascii_tables (lit ''lang_code'', lit ''word'', lit ''sounds/N/ipa'', []) cat_document =
     (Inr [[(lit ''en'', fmempty)], [(lit ''cat'', fmempty)], [(lit ''/kat/'', fmupd (lit ''N'') 0 fmempty)]], [])"
    by code_simp
  have c: "consolidate_results
        [[(lit ''en'', fmempty)], [(lit ''cat'', fmempty)], [(lit ''/kat/'', fmupd (lit ''N'') 0 fmempty)]]
      = Inr [[lit ''en'', lit ''cat'', lit ''/kat/'']]"
    by code_simp
  have f: "filter (passes_validation ascii_tables True)
            (map (\<lambda>t. normalized_entry ascii_tables (last_three t)) [[lit ''en'', lit ''cat'', lit ''/kat/'']])
         = [(lit ''en'', lit ''cat'', lit ''/kat/'')]"
    by code_simp
  from search_triples_entries [OF p, of True] obtain consolidated where
    a: "consolidate_results
          [[(lit ''en'', fmempty)], [(lit ''cat'', fmempty)], [(lit ''/kat/'', fmupd (lit ''N'') 0 fmempty)]]
        = Inr consolidated"
    and b: "search_triples ascii_tables (lit ''lang_code'', lit ''word'', lit ''sounds/N/ipa'', []) cat_document True =
         (Inr (filter (passes_validation ascii_tables True)
                (map (\<lambda>t. normalized_entry ascii_tables (last_three t)) consolidated)), [])"
    by blast
  from a c have "consolidated = [[lit ''en'', lit ''cat'', lit ''/kat/'']]" by simp
  with b have "search_triples ascii_tables (lit ''lang_code'', lit ''word'', lit ''sounds/N/ipa'', []) cat_document True
      = (Inr [(lit ''en'', lit ''cat'', lit ''/kat/'')], [])"
    by (simp only: f)
  with p c show ?thesis by blast
qed

text \<open>
  The claim as the specification words it (the entry is made of the tuple's own last three
  components, and for IPA a tuple with three non-empty components is kept) fails on a
  word that is blank: the tuple \<open>("en", " ", "x")\<close> has three non-empty components, the
  extraction is for IPA, and no entry comes out, because the normalised word is empty.
\<close>

theorem search_triples_entries_counterexample:
  "search_positions ascii_tables (lit ''lang_code'', lit ''word'', lit ''sounds/N/ipa'', []) blank_word_document =
     (Inr [[(lit ''en'', fmempty)], [(lit '' '', fmempty)], [(lit ''x'', fmupd (lit ''N'') 0 fmempty)]], [])
   \<and> consolidate_results
        [[(lit ''en'', fmempty)], [(lit '' '', fmempty)], [(lit ''x'', fmupd (lit ''N'') 0 fmempty)]]
      = Inr [[lit ''en'', lit '' '', lit ''x'']]
   \<and> lit ''en'' \<noteq> [] \<and> lit '' '' \<noteq> [] \<and> lit ''x'' \<noteq> []
   \<and> search_triples ascii_tables (lit ''lang_code'', lit ''word'', lit ''sounds/N/ipa'', []) blank_word_document True
      = (Inr [], [])"
  by code_simp


end
